theory Spec2Isabelle
  imports Complex_Main
begin

section \<open>JavaScript values and exceptions\<close>

text \<open>
  The values that flow through the pipeline are base64 strings, \<open>undefined\<close> and plain
  objects. A thrown value is either an instance of \<open>Error\<close> (with its message) or
  something else; \<open>catch\<close> blocks of the program tell the two apart with \<open>instanceof\<close>.
  An async function is modelled by its settled outcome: \<open>Inl\<close> a rejection, \<open>Inr\<close> the
  fulfilment value.
\<close>

datatype jsval = Undefined | Str string | Obj "(string \<times> jsval) list"

datatype thrown = ErrorObj string | NonError

fun truthy :: "jsval \<Rightarrow> bool" where
  "truthy Undefined = False"
| "truthy (Str s) = (s \<noteq> [])"
| "truthy (Obj fs) = True"

text \<open>
  Property read \<open>v.k\<close>. Reading from \<open>undefined\<close> throws a TypeError (the message text is
  the engine's). A string primitive has no property under the keys this program reads
  from it (\<open>description\<close>, \<open>image\<close>), so the read gives \<open>undefined\<close>.
\<close>

fun get_prop :: "jsval \<Rightarrow> string \<Rightarrow> thrown + jsval" where
  "get_prop Undefined k = Inl (ErrorObj ''Cannot read properties of undefined'')"
| "get_prop (Str s) k = Inr Undefined"
| "get_prop (Obj fs) k = (case map_of fs k of None \<Rightarrow> Inr Undefined | Some v \<Rightarrow> Inr v)"

definition await :: "thrown + 'a \<Rightarrow> ('a \<Rightarrow> thrown + 'b) \<Rightarrow> thrown + 'b" where
  "await p k = (case p of Inl e \<Rightarrow> Inl e | Inr v \<Rightarrow> k v)"

text \<open>\<open>String.prototype.split\<close> with a one-character separator, and an array read \<open>xs[i]\<close>.\<close>

fun split_on :: "char \<Rightarrow> string \<Rightarrow> string list" where
  "split_on c [] = [[]]"
| "split_on c (x # xs) =
     (if x = c then [] # split_on c xs
      else (case split_on c xs of [] \<Rightarrow> [[x]] | w # ws \<Rightarrow> (x # w) # ws))"

definition at_index :: "string list \<Rightarrow> nat \<Rightarrow> jsval" where
  "at_index xs i = (if i < length xs then Str (xs ! i) else Undefined)"

text \<open>
  \<open>String.prototype.trim\<close> removes white space and line terminators from both ends.
  Characters are bytes here, so the set is the part of ECMAScript's below U+0100:
  TAB, LF, VT, FF, CR, SPACE and NBSP.
\<close>

definition js_whitespace :: "char \<Rightarrow> bool" where
  "js_whitespace c = (c \<in> set [CHR 0x09, CHR 0x0A, CHR 0x0B, CHR 0x0C, CHR 0x0D, CHR 0x20, CHR 0xA0])"

definition trim :: "string \<Rightarrow> string" where
  "trim s = rev (dropWhile js_whitespace (rev (dropWhile js_whitespace s)))"

section \<open>Files and the model service\<close>

text \<open>
  A \<open>File\<close>: its name, its \<open>type\<close>, its contents (kept as their base64 text) and whether
  the browser can still read it. \<open>FileReader.readAsDataURL\<close> leaves in \<open>reader.result\<close>
  the data URL of the contents, or \<open>null\<close> when the read fails; \<open>onloadend\<close> fires in
  both cases.
\<close>

record image_file =
  fname :: string
  ftype :: string
  payload :: string
  readable :: bool

definition readAsDataURL :: "image_file \<Rightarrow> string option" where
  "readAsDataURL f =
     (if readable f
      then Some (''data:'' @ (if ftype f = [] then ''application/octet-stream'' else ftype f)
                 @ '';base64,'' @ payload f)
      else None)"

record blob =
  data :: jsval
  mimeType :: string

text \<open>A part of a response: \<open>inlineData\<close> and \<open>text\<close> are both optional.\<close>

record part =
  inlineData :: "blob option"
  partText :: "string option"

record content =
  parts :: "part list option"

record candidate =
  content :: "content option"

record response =
  candidates :: "candidate list option"

text \<open>
  The text parts of a request are fixed literals of the source, named here instead of
  spelled out; the design prompt embeds the user's style prompt.
\<close>

datatype prompt_text =
    EnhancePrompt
  | RoomCaption
  | DecorCaption
  | DesignPrompt string

datatype req_part = InlineReq blob | TextReq prompt_text

datatype modality = IMAGE | TEXT

record request =
  model :: string
  contents :: "req_part list"
  responseModalities :: "modality list"

datatype api_outcome = Throws thrown | Responds response

text \<open>\<open>ai.models.generateContent\<close>, as the outcome it has for each request.\<close>

type_synonym service = "request \<Rightarrow> api_outcome"

section \<open>geminiService.ts\<close>

text \<open>
  \<open>fileToGenerativePart\<close>: the promise is built with \<open>resolve\<close> only. A string result
  is split at the commas and the second piece is the payload; any other result resolves
  with the empty string.
\<close>

definition base64EncodedData :: "image_file \<Rightarrow> jsval" where
  "base64EncodedData f =
     (case readAsDataURL f of
        Some url \<Rightarrow> at_index (split_on CHR '','' url) 1
      | None \<Rightarrow> Str [])"

definition generative_part :: "image_file \<Rightarrow> blob" where
  "generative_part f = \<lparr>data = base64EncodedData f, mimeType = ftype f\<rparr>"

definition fileToGenerativePart :: "image_file \<Rightarrow> thrown + blob" where
  "fileToGenerativePart f = Inr (generative_part f)"

definition enhance_request :: "blob \<Rightarrow> request" where
  "enhance_request imagePart =
     \<lparr>model = ''gemini-2.5-flash-image-preview'',
      contents = [InlineReq imagePart, TextReq EnhancePrompt],
      responseModalities = [IMAGE, TEXT]\<rparr>"

text \<open>\<open>response.candidates?.[0]?.content?.parts\<close>\<close>

definition optional_parts :: "response \<Rightarrow> part list option" where
  "optional_parts r =
     (case candidates r of
        None \<Rightarrow> None
      | Some cs \<Rightarrow>
         (case cs of
            [] \<Rightarrow> None
          | c # _ \<Rightarrow> (case content c of None \<Rightarrow> None | Some ct \<Rightarrow> parts ct)))"

text \<open>\<open>part.inlineData?.data\<close>\<close>

definition inline_data :: "part \<Rightarrow> jsval" where
  "inline_data p = (case inlineData p of None \<Rightarrow> Undefined | Some b \<Rightarrow> data b)"

text \<open>The first part whose \<open>inlineData?.data\<close> is truthy, if any.\<close>

definition imagePartResponse :: "response \<Rightarrow> part option" where
  "imagePartResponse r =
     (case optional_parts r of
        None \<Rightarrow> None
      | Some ps \<Rightarrow> find (\<lambda>p. truthy (inline_data p)) ps)"

text \<open>The \<open>try\<close> block of \<open>enhanceImage\<close>.\<close>

definition enhance_try :: "service \<Rightarrow> blob \<Rightarrow> thrown + jsval" where
  "enhance_try ai imagePart =
     (case ai (enhance_request imagePart) of
        Throws e \<Rightarrow> Inl e
      | Responds r \<Rightarrow>
         (case imagePartResponse r of
            Some p \<Rightarrow>
              if truthy (inline_data p) then Inr (inline_data p)
              else Inl (ErrorObj ''Model did not return an enhanced image.'')
          | None \<Rightarrow> Inl (ErrorObj ''Model did not return an enhanced image.'')))"

text \<open>The \<open>catch\<close> block of \<open>enhanceImage\<close>: read the file again and return its payload.\<close>

definition enhance_catch :: "image_file \<Rightarrow> thrown + jsval" where
  "enhance_catch imageFile =
     await (fileToGenerativePart imageFile) (\<lambda>originalImagePart. Inr (data originalImagePart))"

definition enhanceImage :: "service \<Rightarrow> image_file \<Rightarrow> thrown + jsval" where
  "enhanceImage ai imageFile =
     await (fileToGenerativePart imageFile) (\<lambda>imagePart.
       case enhance_try ai imagePart of
         Inr v \<Rightarrow> Inr v
       | Inl e \<Rightarrow> enhance_catch imageFile)"

text \<open>
  \<open>Promise.all\<close> over the decor reads. The reads never reject, so which rejection
  would win is immaterial here; the list is walked in index order.
\<close>

fun all_parts :: "(thrown + 'a) list \<Rightarrow> thrown + 'a list" where
  "all_parts [] = Inr []"
| "all_parts (p # ps) = await p (\<lambda>v. await (all_parts ps) (\<lambda>vs. Inr (v # vs)))"

definition design_contents :: "blob \<Rightarrow> blob list \<Rightarrow> string \<Rightarrow> req_part list" where
  "design_contents roomImagePart decorImageParts stylePrompt =
     [TextReq RoomCaption, InlineReq roomImagePart, TextReq DecorCaption]
     @ map InlineReq decorImageParts
     @ [TextReq (DesignPrompt stylePrompt)]"

definition design_request :: "req_part list \<Rightarrow> request" where
  "design_request cs =
     \<lparr>model = ''gemini-2.5-flash-image-preview'',
      contents = cs,
      responseModalities = [IMAGE, TEXT]\<rparr>"

text \<open>
  The \<open>for\<close> loop over \<open>candidate.content.parts\<close>: \<open>image\<close> takes the data of the first
  part that has an \<open>inlineData\<close> object, and the loop breaks there.
\<close>

fun scan_parts :: "part list \<Rightarrow> jsval \<Rightarrow> jsval" where
  "scan_parts [] img = img"
| "scan_parts (p # ps) img =
     (case inlineData p of Some b \<Rightarrow> data b | None \<Rightarrow> scan_parts ps img)"

definition no_image_message :: string where
  "no_image_message = ''The model did not return an image. Please try refining your prompt.''"

definition check_image :: "jsval \<Rightarrow> thrown + jsval" where
  "check_image img = (if \<not> truthy img then Inl (ErrorObj no_image_message) else Inr img)"

text \<open>
  The \<open>try\<close> block of \<open>generateDecorIdeas\<close>. \<open>candidate.content.parts\<close> is read without
  optional chaining: a candidate without content, or content without parts, throws a
  TypeError (an \<open>Error\<close>; the message text is the engine's).
\<close>

definition design_try :: "service \<Rightarrow> req_part list \<Rightarrow> thrown + jsval" where
  "design_try ai cs =
     (case ai (design_request cs) of
        Throws e \<Rightarrow> Inl e
      | Responds r \<Rightarrow>
         (case (case candidates r of None \<Rightarrow> None
                | Some cands \<Rightarrow> (case cands of [] \<Rightarrow> None | c # _ \<Rightarrow> Some c)) of
            None \<Rightarrow> check_image (Str [])
          | Some cand \<Rightarrow>
             (case content cand of
                None \<Rightarrow> Inl (ErrorObj ''Cannot read properties of undefined'')
              | Some ct \<Rightarrow>
                 (case parts ct of
                    None \<Rightarrow> Inl (ErrorObj ''undefined is not iterable'')
                  | Some ps \<Rightarrow> check_image (scan_parts ps (Str []))))))"

text \<open>The \<open>catch\<close> block of \<open>generateDecorIdeas\<close>: every thrown value is wrapped.\<close>

definition design_catch :: "thrown \<Rightarrow> thrown" where
  "design_catch e =
     (case e of
        ErrorObj m \<Rightarrow> ErrorObj (''Failed to generate design: '' @ m)
      | NonError \<Rightarrow> ErrorObj ''An unknown error occurred while generating the design.'')"

definition design_call :: "service \<Rightarrow> req_part list \<Rightarrow> thrown + jsval" where
  "design_call ai cs = (case design_try ai cs of Inr v \<Rightarrow> Inr v | Inl e \<Rightarrow> Inl (design_catch e))"

definition generateDecorIdeas :: "service \<Rightarrow> image_file \<Rightarrow> image_file list \<Rightarrow> string \<Rightarrow> thrown + jsval" where
  "generateDecorIdeas ai roomImage decorImages stylePrompt =
     await (fileToGenerativePart roomImage) (\<lambda>roomImagePart.
       await (all_parts (map fileToGenerativePart decorImages)) (\<lambda>decorImageParts.
         design_call ai (design_contents roomImagePart decorImageParts stylePrompt)))"

section \<open>App.tsx\<close>

record result =
  enhancedBeforeImage :: jsval
  idea :: jsval

record app_state =
  roomImages :: "image_file list"
  decorImages :: "image_file list"
  stylePrompt :: string
  results :: "result list"
  isLoading :: bool
  error :: "string option"

text \<open>
  The async arrow that \<open>handleGenerate\<close> maps over the room images, in direct style:
  enhancement is awaited, then design generation, then the pair is returned.
\<close>

definition room_chain :: "service \<Rightarrow> image_file list \<Rightarrow> string \<Rightarrow> image_file \<Rightarrow> thrown + result" where
  "room_chain ai decor prompt roomImage =
     await (enhanceImage ai roomImage) (\<lambda>enhanced.
       await (generateDecorIdeas ai roomImage decor prompt) (\<lambda>design.
         Inr \<lparr>enhancedBeforeImage = enhanced, idea = design\<rparr>))"

text \<open>\<open>err instanceof Error ? err.message : 'An unknown error occurred.'\<close>\<close>

definition error_message :: "thrown \<Rightarrow> string" where
  "error_message err = (case err of ErrorObj m \<Rightarrow> m | NonError \<Rightarrow> ''An unknown error occurred.'')"

text \<open>The props that the result list hands to each \<open>ResultCard\<close>.\<close>

record card_props =
  description :: jsval
  beforeImage :: jsval
  afterImage :: jsval

definition card_of :: "result \<Rightarrow> thrown + card_props" where
  "card_of r =
     await (get_prop (idea r) ''description'') (\<lambda>d.
       await (get_prop (idea r) ''image'') (\<lambda>a.
         Inr \<lparr>description = d, beforeImage = enhancedBeforeImage r, afterImage = a\<rparr>))"

subsection \<open>The chains as they run interleaved\<close>

text \<open>
  Each room image has its own chain, suspended at one \<open>await\<close> at a time. The states
  name the await a chain is suspended at: the file read and the service call of
  \<open>enhanceImage\<close>, the read of its fallback, the two reads and the service call of
  \<open>generateDecorIdeas\<close>; or the chain has settled. \<open>advance\<close> resumes a chain whose
  pending operation has completed and runs it to its next await, recording the requests
  sent to the service and the responses (or failures) received from it.
\<close>

datatype event = ReqEnhance nat | ResEnhance nat | ReqGenerate nat | ResGenerate nat

datatype chain =
    EnhRead
  | EnhCall blob
  | EnhFallbackRead
  | GenReadRoom jsval
  | GenReadDecor jsval blob
  | GenCall jsval "req_part list"
  | Fulfilled result
  | Rejected thrown

fun advance :: "service \<Rightarrow> image_file list \<Rightarrow> string \<Rightarrow> nat \<Rightarrow> image_file \<Rightarrow> chain
    \<Rightarrow> chain \<times> event list" where
  "advance ai decor prompt i f EnhRead =
     (case fileToGenerativePart f of
        Inl e \<Rightarrow> (Rejected e, [])
      | Inr imagePart \<Rightarrow> (EnhCall imagePart, [ReqEnhance i]))"
| "advance ai decor prompt i f (EnhCall imagePart) =
     (case enhance_try ai imagePart of
        Inr v \<Rightarrow> (GenReadRoom v, [ResEnhance i])
      | Inl e \<Rightarrow> (EnhFallbackRead, [ResEnhance i]))"
| "advance ai decor prompt i f EnhFallbackRead =
     (case enhance_catch f of
        Inl e \<Rightarrow> (Rejected e, [])
      | Inr v \<Rightarrow> (GenReadRoom v, []))"
| "advance ai decor prompt i f (GenReadRoom enhanced) =
     (case fileToGenerativePart f of
        Inl e \<Rightarrow> (Rejected e, [])
      | Inr roomImagePart \<Rightarrow> (GenReadDecor enhanced roomImagePart, []))"
| "advance ai decor prompt i f (GenReadDecor enhanced roomImagePart) =
     (case all_parts (map fileToGenerativePart decor) of
        Inl e \<Rightarrow> (Rejected e, [])
      | Inr decorImageParts \<Rightarrow>
          (GenCall enhanced (design_contents roomImagePart decorImageParts prompt), [ReqGenerate i]))"
| "advance ai decor prompt i f (GenCall enhanced cs) =
     (case design_call ai cs of
        Inl e \<Rightarrow> (Rejected e, [ResGenerate i])
      | Inr design \<Rightarrow> (Fulfilled \<lparr>enhancedBeforeImage = enhanced, idea = design\<rparr>, [ResGenerate i]))"
| "advance ai decor prompt i f (Fulfilled r) = (Fulfilled r, [])"
| "advance ai decor prompt i f (Rejected e) = (Rejected e, [])"

fun settled :: "chain \<Rightarrow> bool" where
  "settled (Fulfilled r) = True"
| "settled (Rejected e) = True"
| "settled c = False"

text \<open>
  The running batch: the component state, the chains, and the state of \<open>Promise.all\<close>
  (its \<open>values\<close> array, its count of elements still to come, and the combined promise,
  \<open>None\<close> while pending), with the log of service traffic.
\<close>

record sys =
  ui :: app_state
  chains :: "chain list"
  slots :: "result option list"
  remaining :: nat
  combined :: "(thrown + result list) option"
  trace :: "event list"

text \<open>
  What \<open>handleGenerate\<close> does once the combined promise settles: \<open>setResults\<close> on
  fulfilment, \<open>setError\<close> in the \<open>catch\<close>, and \<open>setIsLoading(false)\<close> in the \<open>finally\<close>.
\<close>

definition continuation :: "thrown + result list \<Rightarrow> app_state \<Rightarrow> app_state" where
  "continuation outcome u =
     (case outcome of
        Inr generatedResults \<Rightarrow> u\<lparr>results := generatedResults, isLoading := False\<rparr>
      | Inl err \<Rightarrow> u\<lparr>isLoading := False, error := Some (error_message err)\<rparr>)"

text \<open>A promise settles once: resolving or rejecting a settled promise does nothing.\<close>

definition settle_combined :: "thrown + result list \<Rightarrow> sys \<Rightarrow> sys" where
  "settle_combined outcome s =
     (case combined s of
        Some old \<Rightarrow> s
      | None \<Rightarrow> s\<lparr>ui := continuation outcome (ui s), combined := Some outcome\<rparr>)"

text \<open>
  The array that \<open>Promise.all\<close> fulfils with. A slot never written would be a hole;
  \<open>slots_filled_when_resolved\<close> below shows none is left when the count reaches zero.
\<close>

definition filled :: "result option list \<Rightarrow> result list" where
  "filled vs = concat (map (\<lambda>v. case v of None \<Rightarrow> [] | Some r \<Rightarrow> [r]) vs)"

text \<open>
  \<open>Promise.all\<close>'s resolve-element function for index \<open>i\<close>: store the value at its
  index, count down, and fulfil the combined promise with the array at zero.
\<close>

definition resolve_element :: "nat \<Rightarrow> result \<Rightarrow> sys \<Rightarrow> sys" where
  "resolve_element i v s =
     (let s' = s\<lparr>slots := (slots s)[i := Some v], remaining := remaining s - 1\<rparr>
      in if remaining s' = 0 then settle_combined (Inr (filled (slots s'))) s' else s')"

text \<open>
  The pending operation of chain \<open>i\<close> completes. The chain runs to its next await; if it
  settles, \<open>Promise.all\<close> is told. A chain that has settled has nothing pending.
\<close>

definition deliver :: "(nat \<Rightarrow> service) \<Rightarrow> nat \<Rightarrow> sys \<Rightarrow> sys" where
  "deliver net i s =
     (if i < length (chains s) \<and> \<not> settled (chains s ! i) then
        (case advance (net i) (decorImages (ui s)) (stylePrompt (ui s)) i
                (roomImages (ui s) ! i) (chains s ! i) of
           (c, evs) \<Rightarrow>
             (let s' = s\<lparr>chains := (chains s)[i := c], trace := trace s @ evs\<rparr>
              in case c of
                   Fulfilled v \<Rightarrow> resolve_element i v s'
                 | Rejected e \<Rightarrow> settle_combined (Inl e) s'
                 | _ \<Rightarrow> s'))
      else s)"

text \<open>
  The synchronous part of \<open>handleGenerate\<close>: the two guards, the three state updates,
  and \<open>map\<close>, which starts one chain per room image (each runs to its first await).
\<close>

definition handleGenerate_begin :: "app_state \<Rightarrow> sys" where
  "handleGenerate_begin u =
     (if length (roomImages u) = 0 then
        \<lparr>ui = u\<lparr>error := Some ''Please upload at least one image of your room.''\<rparr>,
         chains = [], slots = [], remaining = 0, combined = None, trace = []\<rparr>
      else if trim (stylePrompt u) = [] then
        \<lparr>ui = u\<lparr>error := Some ''Please provide a style prompt.''\<rparr>,
         chains = [], slots = [], remaining = 0, combined = None, trace = []\<rparr>
      else
        \<lparr>ui = u\<lparr>isLoading := True, error := None, results := []\<rparr>,
         chains = map (\<lambda>roomImage. EnhRead) (roomImages u),
         slots = map (\<lambda>roomImage. None) (roomImages u),
         remaining = length (roomImages u),
         combined = None, trace = []\<rparr>)"

text \<open>
  A run of \<open>handleGenerate\<close> under a schedule: the order in which pending operations
  complete, each entry naming the chain whose operation completes next.
\<close>

definition handleGenerate :: "(nat \<Rightarrow> service) \<Rightarrow> nat list \<Rightarrow> app_state \<Rightarrow> sys" where
  "handleGenerate net sched u = fold (deliver net) sched (handleGenerate_begin u)"


section \<open>ResultCard: the comparison image\<close>


record 'n number_ops =
  num :: "nat \<Rightarrow> 'n"
  mul :: "'n \<Rightarrow> 'n \<Rightarrow> 'n"
  quot :: "'n \<Rightarrow> 'n \<Rightarrow> 'n"
  add :: "'n \<Rightarrow> 'n \<Rightarrow> 'n"
  sub :: "'n \<Rightarrow> 'n \<Rightarrow> 'n"
  to_unsigned_long :: "'n \<Rightarrow> nat"






section \<open>Vocabulary of the properties\<close>

text \<open>
  A state passes validation when both guards of \<open>handleGenerate\<close> let it through.
  A schedule is fair for \<open>n\<close> chains when every chain gets at least six completions:
  a chain has at most six awaits, so under a fair schedule every pending operation of the
  batch does complete.
\<close>

definition valid :: "app_state \<Rightarrow> bool" where
  "valid u = (roomImages u \<noteq> [] \<and> trim (stylePrompt u) \<noteq> [])"

definition fair :: "nat \<Rightarrow> nat list \<Rightarrow> bool" where
  "fair n sched = list_all (\<lambda>i. 6 \<le> count_list sched i) [0..<n]"

text \<open>
  The parts of a response as \<open>enhanceImage\<close> reads them, a part that bears an image
  (it has an \<open>inlineData\<close> object), an enhancement call that fails (it throws, or no part
  of the response carries data), and the request that \<open>generateDecorIdeas\<close> sends.
\<close>

definition response_parts :: "response \<Rightarrow> part list" where
  "response_parts r = (case optional_parts r of None \<Rightarrow> [] | Some ps \<Rightarrow> ps)"


definition enhancement_failed :: "api_outcome \<Rightarrow> bool" where
  "enhancement_failed out =
     (case out of
        Throws e \<Rightarrow> True
      | Responds r \<Rightarrow> \<not> list_ex (\<lambda>p. truthy (inline_data p)) (response_parts r))"


text \<open>
  \<open>preceded_by a b tr\<close>: in the log \<open>tr\<close>, no \<open>b\<close> occurs before the first \<open>a\<close>
  (and none at all if \<open>a\<close> never occurs).
\<close>

fun preceded_by :: "event \<Rightarrow> event \<Rightarrow> event list \<Rightarrow> bool" where
  "preceded_by a b [] = True"
| "preceded_by a b (x # xs) = (if x = a then True else if x = b then False else preceded_by a b xs)"

section \<open>Invariants of a running batch\<close>

text \<open>
  \<open>complete\<close> is the rest of a chain from the await it is suspended at, in direct
  style; from the first await it is the whole arrow, \<open>room_chain\<close>. \<open>steps_left\<close> bounds
  the awaits a chain still has before it.
\<close>

fun complete :: "service \<Rightarrow> image_file list \<Rightarrow> string \<Rightarrow> image_file \<Rightarrow> chain \<Rightarrow> thrown + result" where
  "complete ai decor prompt f EnhRead = room_chain ai decor prompt f"
| "complete ai decor prompt f (EnhCall imagePart) =
     await (case enhance_try ai imagePart of Inr v \<Rightarrow> Inr v | Inl e \<Rightarrow> enhance_catch f) (\<lambda>enhanced.
       await (generateDecorIdeas ai f decor prompt) (\<lambda>design.
         Inr \<lparr>enhancedBeforeImage = enhanced, idea = design\<rparr>))"
| "complete ai decor prompt f EnhFallbackRead =
     await (enhance_catch f) (\<lambda>enhanced.
       await (generateDecorIdeas ai f decor prompt) (\<lambda>design.
         Inr \<lparr>enhancedBeforeImage = enhanced, idea = design\<rparr>))"
| "complete ai decor prompt f (GenReadRoom enhanced) =
     await (generateDecorIdeas ai f decor prompt) (\<lambda>design.
       Inr \<lparr>enhancedBeforeImage = enhanced, idea = design\<rparr>)"
| "complete ai decor prompt f (GenReadDecor enhanced roomImagePart) =
     await (all_parts (map fileToGenerativePart decor)) (\<lambda>decorImageParts.
       await (design_call ai (design_contents roomImagePart decorImageParts prompt)) (\<lambda>design.
         Inr \<lparr>enhancedBeforeImage = enhanced, idea = design\<rparr>))"
| "complete ai decor prompt f (GenCall enhanced cs) =
     await (design_call ai cs) (\<lambda>design. Inr \<lparr>enhancedBeforeImage = enhanced, idea = design\<rparr>)"
| "complete ai decor prompt f (Fulfilled r) = Inr r"
| "complete ai decor prompt f (Rejected e) = Inl e"

fun steps_left :: "chain \<Rightarrow> nat" where
  "steps_left EnhRead = 6"
| "steps_left (EnhCall p) = 5"
| "steps_left EnhFallbackRead = 4"
| "steps_left (GenReadRoom v) = 3"
| "steps_left (GenReadDecor v p) = 2"
| "steps_left (GenCall v cs) = 1"
| "steps_left (Fulfilled r) = 0"
| "steps_left (Rejected e) = 0"

fun chain_value :: "chain \<Rightarrow> result option" where
  "chain_value (Fulfilled r) = Some r"
| "chain_value c = None"

fun rejected :: "chain \<Rightarrow> bool" where
  "rejected (Rejected e) = True"
| "rejected c = False"

text \<open>
  The state after the three updates that follow the guards; the number of chains not
  yet fulfilled; and what holds of a batch at every moment: the \<open>values\<close> array mirrors
  the fulfilled chains, the counter counts the others, the component state is decided by
  the combined promise alone, and every chain is still on the way to the outcome of its
  arrow.
\<close>

definition started :: "app_state \<Rightarrow> app_state" where
  "started u = u\<lparr>isLoading := True, error := None, results := []\<rparr>"

definition pending_count :: "chain list \<Rightarrow> nat" where
  "pending_count cs = length (filter (\<lambda>c. chain_value c = None) cs)"

definition batch_inv :: "(nat \<Rightarrow> service) \<Rightarrow> app_state \<Rightarrow> sys \<Rightarrow> bool" where
  "batch_inv net u s =
     (length (chains s) = length (roomImages u) \<and>
      slots s = map chain_value (chains s) \<and>
      remaining s = pending_count (chains s) \<and>
      ui s = (case combined s of None \<Rightarrow> started u | Some out \<Rightarrow> continuation out (started u)) \<and>
      (case combined s of
         None \<Rightarrow> 0 < remaining s \<and> (\<forall>c \<in> set (chains s). \<not> rejected c)
       | Some (Inr rs) \<Rightarrow> rs = filled (slots s) \<and> remaining s = 0
       | Some (Inl e) \<Rightarrow> Rejected e \<in> set (chains s)) \<and>
      (\<forall>j < length (roomImages u).
         complete (net j) (decorImages u) (stylePrompt u) (roomImages u ! j) (chains s ! j)
         = room_chain (net j) (decorImages u) (stylePrompt u) (roomImages u ! j)))"

text \<open>
  The log against one chain: while the chain has not had its enhancement response it
  has sent no design request, and once it is past that response the response is in the
  log.
\<close>

fun awaiting_enhancement :: "chain \<Rightarrow> bool" where
  "awaiting_enhancement EnhRead = True"
| "awaiting_enhancement (EnhCall p) = True"
| "awaiting_enhancement c = False"

fun enhancement_done :: "chain \<Rightarrow> bool" where
  "enhancement_done EnhFallbackRead = True"
| "enhancement_done (GenReadRoom v) = True"
| "enhancement_done (GenReadDecor v p) = True"
| "enhancement_done (GenCall v cs) = True"
| "enhancement_done c = False"

definition chain_trace_ok :: "nat \<Rightarrow> chain \<Rightarrow> event list \<Rightarrow> bool" where
  "chain_trace_ok i c tr =
     (preceded_by (ResEnhance i) (ReqGenerate i) tr \<and>
      (awaiting_enhancement c \<longrightarrow> ReqGenerate i \<notin> set tr) \<and>
      (enhancement_done c \<longrightarrow> ResEnhance i \<in> set tr))"

definition trace_inv :: "sys \<Rightarrow> bool" where
  "trace_inv s = (\<forall>i < length (chains s). chain_trace_ok i (chains s ! i) (trace s))"

fun tag :: "event \<Rightarrow> nat" where
  "tag (ReqEnhance i) = i"
| "tag (ResEnhance i) = i"
| "tag (ReqGenerate i) = i"
| "tag (ResGenerate i) = i"

section \<open>Example inputs\<close>

text \<open>
  Two readable room images and one whose read fails; a response with a text part and
  an image part, and one with text only; services that answer design requests and fail
  enhancement requests, or the reverse; component states and schedules.
\<close>

definition roomA :: image_file where
  "roomA = \<lparr>fname = ''a.png'', ftype = ''image/png'', payload = ''QUFB'', readable = True\<rparr>"

definition roomB :: image_file where
  "roomB = \<lparr>fname = ''b.jpg'', ftype = ''image/jpeg'', payload = ''QkJC'', readable = True\<rparr>"

definition lostRoom :: image_file where
  "lostRoom = \<lparr>fname = ''gone.png'', ftype = ''image/png'', payload = ''QUFB'', readable = False\<rparr>"

definition image_response :: "string \<Rightarrow> response" where
  "image_response d =
     \<lparr>candidates = Some [\<lparr>content = Some \<lparr>parts = Some
        [\<lparr>inlineData = None, partText = Some ''Here you go''\<rparr>,
         \<lparr>inlineData = Some \<lparr>data = Str d, mimeType = ''image/png''\<rparr>, partText = None\<rparr>]\<rparr>\<rparr>]\<rparr>"

definition text_response :: response where
  "text_response =
     \<lparr>candidates = Some [\<lparr>content = Some \<lparr>parts = Some
        [\<lparr>inlineData = None, partText = Some ''I cannot do that''\<rparr>]\<rparr>\<rparr>]\<rparr>"

definition is_design_request :: "request \<Rightarrow> bool" where
  "is_design_request r = (TextReq RoomCaption \<in> set (contents r))"

definition designs_only :: "string \<Rightarrow> service" where
  "designs_only d r = (if is_design_request r then Responds (image_response d) else Throws NonError)"

definition designs_down :: "string \<Rightarrow> service" where
  "designs_down m r = (if is_design_request r then Throws (ErrorObj m) else Responds (image_response ''RU5I''))"

definition text_only :: service where
  "text_only r = Responds text_response"

definition refuses :: service where
  "refuses r = Throws (ErrorObj ''quota exceeded'')"

definition net_ok :: "nat \<Rightarrow> service" where
  "net_ok i = designs_only (if i = 0 then ''REVTQQ'' else ''REVTQg'')"

definition net_b_fails :: "nat \<Rightarrow> service" where
  "net_b_fails i = (if i = 0 then designs_only ''REVTQQ'' else designs_down ''503'')"

definition both_fail :: "nat \<Rightarrow> service" where
  "both_fail i = designs_down (if i = 0 then ''A is down'' else ''B is down'')"

definition old_result :: result where
  "old_result = \<lparr>enhancedBeforeImage = Str ''T0xE'', idea = Str ''T0xEZXI''\<rparr>"

definition two_rooms :: app_state where
  "two_rooms = \<lparr>roomImages = [roomA, roomB], decorImages = [], stylePrompt = ''cozy'',
                results = [], isLoading = False, error = None\<rparr>"

definition two_rooms_shown :: app_state where
  "two_rooms_shown = two_rooms\<lparr>results := [old_result]\<rparr>"

definition one_room :: app_state where
  "one_room = \<lparr>roomImages = [roomA], decorImages = [], stylePrompt = ''minimalist'',
               results = [], isLoading = False, error = None\<rparr>"

definition blank_prompt :: app_state where
  "blank_prompt = \<lparr>roomImages = [roomA], decorImages = [], stylePrompt = ''  '',
                   results = [old_result], isLoading = False, error = None\<rparr>"

definition no_rooms :: app_state where
  "no_rooms = \<lparr>roomImages = [], decorImages = [], stylePrompt = ''cozy'',
               results = [old_result], isLoading = False, error = None\<rparr>"

definition interleaved :: "nat list" where
  "interleaved = [1, 0, 1, 0, 1, 1, 1, 0, 0, 0, 1, 0]"

definition a_then_b :: "nat list" where
  "a_then_b = [0, 0, 0, 0, 0, 0, 1, 1, 1, 1, 1, 1]"

definition b_then_a :: "nat list" where
  "b_then_a = [1, 1, 1, 1, 1, 0, 0, 0, 0, 0]"



section \<open>The service functions\<close>

lemma split_on_no_sep: "c \<notin> set b \<Longrightarrow> split_on c b = [b]"
  by (induction b) auto

lemma split_on_first: "c \<notin> set a \<Longrightarrow> split_on c (a @ c # b) = a # split_on c b"
  by (induction a) auto

lemma data_url_split:
  assumes "CHR '','' \<notin> set t" "CHR '','' \<notin> set p"
  shows "split_on CHR '','' (''data:'' @ t @ '';base64,'' @ p) = [''data:'' @ t @ '';base64'', p]"
proof -
  let ?a = "''data:'' @ t @ '';base64''"
  have eq: "''data:'' @ t @ '';base64,'' @ p = ?a @ CHR '','' # p" by simp
  have "CHR '','' \<notin> set ?a" using assms(1) by simp
  then have "split_on CHR '','' (?a @ CHR '','' # p) = ?a # split_on CHR '','' p"
    by (rule split_on_first)
  also have "split_on CHR '','' p = [p]" using assms(2) by (rule split_on_no_sep)
  finally show ?thesis unfolding eq .
qed

lemma generative_part_readable:
  assumes "readable f" "CHR '','' \<notin> set (ftype f)" "CHR '','' \<notin> set (payload f)"
  shows "generative_part f = \<lparr>data = Str (payload f), mimeType = ftype f\<rparr>"
proof -
  let ?t = "if ftype f = [] then ''application/octet-stream'' else ftype f"
  have "CHR '','' \<notin> set ?t" using assms(2) by simp
  then have "split_on CHR '','' (''data:'' @ ?t @ '';base64,'' @ payload f)
             = [''data:'' @ ?t @ '';base64'', payload f]"
    using assms(3) by (rule data_url_split)
  then show ?thesis
    using assms(1) by (simp add: generative_part_def base64EncodedData_def readAsDataURL_def at_index_def)
qed


lemma enhanceImage_total: "\<exists>v. enhanceImage ai f = Inr v"
  by (simp add: enhanceImage_def enhance_catch_def await_def fileToGenerativePart_def split: sum.splits)

lemma generative_part_unreadable:
  "\<not> readable f \<Longrightarrow> generative_part f = \<lparr>data = Str [], mimeType = ftype f\<rparr>"
  by (simp add: generative_part_def base64EncodedData_def readAsDataURL_def)

lemma enhance_try_failed:
  "enhancement_failed (ai (enhance_request p)) \<Longrightarrow> \<exists>e. enhance_try ai p = Inl e"
  by (auto simp: enhancement_failed_def enhance_try_def imagePartResponse_def response_parts_def
      list_ex_iff find_None_iff split: api_outcome.splits option.splits dest: find_Some_iff[THEN iffD1])

lemma enhanceImage_fallback:
  "enhancement_failed (ai (enhance_request (generative_part f)))
     \<Longrightarrow> enhanceImage ai f = Inr (data (generative_part f))"
  using enhance_try_failed[of ai "generative_part f"]
  by (auto simp: enhanceImage_def enhance_catch_def await_def fileToGenerativePart_def)




lemma room_chain_fails_with_generation:
  "room_chain ai decor prompt f = Inl e \<longleftrightarrow> generateDecorIdeas ai f decor prompt = Inl e"
proof -
  obtain v where "enhanceImage ai f = Inr v" using enhanceImage_total by blast
  then show ?thesis by (simp add: room_chain_def await_def split: sum.splits)
qed

lemma trim_empty_iff: "trim s = [] \<longleftrightarrow> (\<forall>c \<in> set s. js_whitespace c)"
proof (cases "dropWhile js_whitespace s")
  case Nil
  then have "trim s = []" by (simp only: trim_def rev.simps dropWhile.simps)
  moreover have "\<forall>c \<in> set s. js_whitespace c" using Nil by (simp only: dropWhile_eq_Nil_conv)
  ultimately show ?thesis by simp
next
  case (Cons y ys)
  then have y: "\<not> js_whitespace y" and "s = takeWhile js_whitespace s @ y # ys"
    by (simp_all add: dropWhile_eq_Cons_conv)
  then have "y \<in> set s" by (metis in_set_conv_decomp)
  moreover have "trim s \<noteq> []" using y Cons by (auto simp: trim_def dropWhile_eq_Nil_conv)
  ultimately show ?thesis using y by auto
qed

section \<open>One chain\<close>

lemma complete_advance:
  "complete ai decor prompt f (fst (advance ai decor prompt i f c)) = complete ai decor prompt f c"
  by (cases c)
     (simp_all add: room_chain_def enhanceImage_def generateDecorIdeas_def fileToGenerativePart_def
        await_def split: sum.splits)

lemma steps_left_advance:
  "\<not> settled c \<Longrightarrow> steps_left (fst (advance ai decor prompt i f c)) < steps_left c"
  by (cases c) (simp_all split: sum.splits)

lemma steps_left_settled: "steps_left c = 0 \<longleftrightarrow> settled c"
  by (cases c) simp_all

lemma steps_left_bound: "steps_left c \<le> 6"
  by (cases c) simp_all

lemma unsettled_value: "\<not> settled c \<Longrightarrow> chain_value c = None"
  by (cases c) simp_all

lemma unsettled_not_rejected: "\<not> settled c \<Longrightarrow> \<not> rejected c"
  by (cases c) simp_all

lemma settled_outcome:
  assumes "settled c"
  shows "(case complete ai decor prompt f c of Inr v \<Rightarrow> c = Fulfilled v | Inl e \<Rightarrow> c = Rejected e)"
  using assms by (cases c) simp_all

lemma advance_tags: "\<forall>ev \<in> set (snd (advance ai decor prompt i f c)). tag ev = i"
  by (cases c) (simp_all split: sum.splits)

section \<open>One delivery\<close>

text \<open>
  What one delivery does, by the state the chain moves to.
\<close>

lemma deliver_idle:
  "\<not> (i < length (chains s) \<and> \<not> settled (chains s ! i)) \<Longrightarrow> deliver net i s = s"
  unfolding deliver_def by (simp only: if_False)

lemma deliver_cases:
  assumes "i < length (chains s)" "\<not> settled (chains s ! i)"
  obtains (suspend) c evs where
      "advance (net i) (decorImages (ui s)) (stylePrompt (ui s)) i (roomImages (ui s) ! i) (chains s ! i) = (c, evs)"
      "\<not> settled c"
      "deliver net i s = s\<lparr>chains := (chains s)[i := c], trace := trace s @ evs\<rparr>"
  | (fulfil) v evs where
      "advance (net i) (decorImages (ui s)) (stylePrompt (ui s)) i (roomImages (ui s) ! i) (chains s ! i) = (Fulfilled v, evs)"
      "deliver net i s = resolve_element i v (s\<lparr>chains := (chains s)[i := Fulfilled v], trace := trace s @ evs\<rparr>)"
  | (reject) e evs where
      "advance (net i) (decorImages (ui s)) (stylePrompt (ui s)) i (roomImages (ui s) ! i) (chains s ! i) = (Rejected e, evs)"
      "deliver net i s = settle_combined (Inl e) (s\<lparr>chains := (chains s)[i := Rejected e], trace := trace s @ evs\<rparr>)"
proof -
  obtain c evs where adv:
    "advance (net i) (decorImages (ui s)) (stylePrompt (ui s)) i (roomImages (ui s) ! i) (chains s ! i) = (c, evs)"
    by (cases "advance (net i) (decorImages (ui s)) (stylePrompt (ui s)) i (roomImages (ui s) ! i) (chains s ! i)")
  show thesis
  proof (cases c)
    case (Fulfilled v)
    then show ?thesis using assms adv fulfil by (simp add: deliver_def)
  next
    case (Rejected e)
    then show ?thesis using assms adv reject by (simp add: deliver_def)
  qed (use assms adv suspend in \<open>simp_all add: deliver_def\<close>)
qed

lemma chains_deliver:
  "chains (deliver net i s) =
     (if i < length (chains s) \<and> \<not> settled (chains s ! i)
      then (chains s)[i := fst (advance (net i) (decorImages (ui s)) (stylePrompt (ui s)) i
                                  (roomImages (ui s) ! i) (chains s ! i))]
      else chains s)"
  by (auto simp: deliver_def resolve_element_def settle_combined_def Let_def
      split: prod.splits chain.splits option.splits)

lemma length_chains_deliver: "length (chains (deliver net i s)) = length (chains s)"
  by (simp add: chains_deliver)

lemma trace_deliver:
  "trace (deliver net i s) =
     (if i < length (chains s) \<and> \<not> settled (chains s ! i)
      then trace s @ snd (advance (net i) (decorImages (ui s)) (stylePrompt (ui s)) i
                            (roomImages (ui s) ! i) (chains s ! i))
      else trace s)"
  by (auto simp: deliver_def resolve_element_def settle_combined_def Let_def
      split: prod.splits chain.splits option.splits)

lemma combined_deliver: "combined s = Some out \<Longrightarrow> combined (deliver net i s) = Some out"
  by (auto simp: deliver_def resolve_element_def settle_combined_def Let_def
      split: prod.splits chain.splits option.splits)

lemma steps_deliver_same:
  "j < length (chains s) \<Longrightarrow> steps_left (chains (deliver net j s) ! j) \<le> steps_left (chains s ! j) - 1"
proof (cases "settled (chains s ! j)")
  case True
  then show ?thesis by (simp add: chains_deliver steps_left_settled[symmetric])
next
  case False
  assume j: "j < length (chains s)"
  have "steps_left (fst (advance (net j) (decorImages (ui s)) (stylePrompt (ui s)) j
          (roomImages (ui s) ! j) (chains s ! j))) < steps_left (chains s ! j)"
    using False by (rule steps_left_advance)
  then show ?thesis using False j by (simp add: chains_deliver)
qed

lemma steps_deliver_other:
  "i \<noteq> j \<Longrightarrow> chains (deliver net i s) ! j = chains s ! j"
  by (simp add: chains_deliver)

lemma deliver_first_read:
  assumes "i < length (chains s)" "chains s ! i = EnhRead"
  shows "deliver net i s =
           s\<lparr>chains := (chains s)[i := EnhCall (generative_part (roomImages (ui s) ! i))],
             trace := trace s @ [ReqEnhance i]\<rparr>"
  using assms by (simp add: deliver_def fileToGenerativePart_def)

section \<open>The batch invariant\<close>

lemma begin_valid:
  "valid u \<Longrightarrow> handleGenerate_begin u =
     \<lparr>ui = started u, chains = map (\<lambda>roomImage. EnhRead) (roomImages u),
      slots = map (\<lambda>roomImage. None) (roomImages u), remaining = length (roomImages u),
      combined = None, trace = []\<rparr>"
  by (simp add: handleGenerate_begin_def valid_def started_def)

lemma batch_inv_begin: "valid u \<Longrightarrow> batch_inv net u (handleGenerate_begin u)"
  by (simp add: begin_valid batch_inv_def pending_count_def) (simp add: valid_def)

lemma ui_static:
  "roomImages (continuation out u) = roomImages u"
  "decorImages (continuation out u) = decorImages u"
  "stylePrompt (continuation out u) = stylePrompt u"
  by (simp_all add: continuation_def split: sum.splits)

lemma started_static:
  "roomImages (started u) = roomImages u"
  "decorImages (started u) = decorImages u"
  "stylePrompt (started u) = stylePrompt u"
  by (simp_all add: started_def)

lemma batch_inv_inputs:
  assumes "batch_inv net u s"
  shows "roomImages (ui s) = roomImages u" "decorImages (ui s) = decorImages u"
    "stylePrompt (ui s) = stylePrompt u"
  using assms by (simp_all add: batch_inv_def ui_static started_static split: option.splits)

lemma pending_count_update_same:
  "i < length cs \<Longrightarrow> (chain_value (cs ! i) = None) = (chain_value c = None)
     \<Longrightarrow> pending_count (cs[i := c]) = pending_count cs"
  unfolding pending_count_def
  by (induction cs arbitrary: i) (auto split: nat.splits)

lemma pending_count_update_fulfil:
  "i < length cs \<Longrightarrow> chain_value (cs ! i) = None
     \<Longrightarrow> Suc (pending_count (cs[i := Fulfilled v])) = pending_count cs"
  unfolding pending_count_def
  by (induction cs arbitrary: i) (auto split: nat.splits)

lemma pending_count_zero: "pending_count cs = 0 \<longleftrightarrow> (\<forall>c \<in> set cs. chain_value c \<noteq> None)"
  unfolding pending_count_def by (induction cs) auto

lemma member_after_update:
  "x \<in> set xs \<Longrightarrow> xs ! i \<noteq> x \<Longrightarrow> x \<in> set (xs[i := y])"
  by (metis in_set_conv_nth length_list_update nth_list_update_neq)

lemma map_value_update_same:
  "i < length cs \<Longrightarrow> chain_value (cs ! i) = None \<Longrightarrow> chain_value c = None
    \<Longrightarrow> map chain_value (cs[i := c]) = map chain_value cs"
  by (simp add: map_update list_update_same_conv)

lemma resolved_all_settled:
  assumes "pending_count cs = 0" "i < length cs"
  shows "settled (cs ! i)"
proof -
  have "chain_value (cs ! i) \<noteq> None" using assms by (simp add: pending_count_zero)
  then show ?thesis by (cases "cs ! i") simp_all
qed

lemma inv_suspend:
  assumes inv: "batch_inv net u s"
    and i: "i < length (chains s)" and uns: "\<not> settled (chains s ! i)"
    and c: "\<not> settled c"
    and sem: "complete (net i) (decorImages u) (stylePrompt u) (roomImages u ! i) c
              = complete (net i) (decorImages u) (stylePrompt u) (roomImages u ! i) (chains s ! i)"
  shows "batch_inv net u (s\<lparr>chains := (chains s)[i := c], trace := trace s @ evs\<rparr>)"
proof -
  have v0: "chain_value (chains s ! i) = None" and v1: "chain_value c = None"
    using uns c by (simp_all add: unsettled_value)
  have slots': "map chain_value ((chains s)[i := c]) = map chain_value (chains s)"
    using i v0 v1 by (rule map_value_update_same)
  have rem': "pending_count ((chains s)[i := c]) = pending_count (chains s)"
    using i v0 v1 by (simp add: pending_count_update_same)
  have norej: "(\<forall>x \<in> set (chains s). \<not> rejected x) \<Longrightarrow> (\<forall>x \<in> set ((chains s)[i := c]). \<not> rejected x)"
    using c set_update_subset_insert[of "chains s" i c] by (auto simp: unsettled_not_rejected)
  have keep: "\<And>e. Rejected e \<in> set (chains s) \<Longrightarrow> Rejected e \<in> set ((chains s)[i := c])"
    using uns by (intro member_after_update) auto
  have sem': "\<forall>j < length (roomImages u).
      complete (net j) (decorImages u) (stylePrompt u) (roomImages u ! j) ((chains s)[i := c] ! j)
      = room_chain (net j) (decorImages u) (stylePrompt u) (roomImages u ! j)"
    using inv i sem by (simp add: batch_inv_def nth_list_update)
  show ?thesis
    using inv slots' rem' norej keep sem'
    by (simp add: batch_inv_def split: option.splits sum.splits)
qed

lemma inv_reject:
  assumes inv: "batch_inv net u s"
    and i: "i < length (chains s)" and uns: "\<not> settled (chains s ! i)"
    and sem: "Inl e = complete (net i) (decorImages u) (stylePrompt u) (roomImages u ! i) (chains s ! i)"
  shows "batch_inv net u
           (settle_combined (Inl e) (s\<lparr>chains := (chains s)[i := Rejected e], trace := trace s @ evs\<rparr>))"
proof -
  let ?cs = "(chains s)[i := Rejected e]"
  have v0: "chain_value (chains s ! i) = None" using uns by (simp add: unsettled_value)
  have slots': "map chain_value ?cs = map chain_value (chains s)"
    using i v0 by (simp add: map_value_update_same)
  have rem': "pending_count ?cs = pending_count (chains s)"
    using i v0 by (simp add: pending_count_update_same)
  have here: "Rejected e \<in> set ?cs" using i by (simp add: set_update_memI)
  have keep: "\<And>x. Rejected x \<in> set (chains s) \<Longrightarrow> Rejected x \<in> set ?cs"
    using uns by (intro member_after_update) auto
  have sem': "\<forall>j < length (roomImages u).
      complete (net j) (decorImages u) (stylePrompt u) (roomImages u ! j) (?cs ! j)
      = room_chain (net j) (decorImages u) (stylePrompt u) (roomImages u ! j)"
    using inv i sem by (simp add: batch_inv_def nth_list_update)
  show ?thesis
    using inv slots' rem' here keep sem'
    by (simp add: batch_inv_def settle_combined_def split: option.splits sum.splits)
qed

lemma inv_fulfil:
  assumes inv: "batch_inv net u s"
    and i: "i < length (chains s)" and uns: "\<not> settled (chains s ! i)"
    and sem: "Inr v = complete (net i) (decorImages u) (stylePrompt u) (roomImages u ! i) (chains s ! i)"
  shows "batch_inv net u
           (resolve_element i v (s\<lparr>chains := (chains s)[i := Fulfilled v], trace := trace s @ evs\<rparr>))"
proof -
  let ?cs = "(chains s)[i := Fulfilled v]"
  have v0: "chain_value (chains s ! i) = None" using uns by (simp add: unsettled_value)
  have slots': "(map chain_value (chains s))[i := Some v] = map chain_value ?cs"
    by (simp add: map_update)
  have rem: "Suc (pending_count ?cs) = pending_count (chains s)"
    using i v0 by (rule pending_count_update_fulfil)
  then have rem': "pending_count (chains s) - 1 = pending_count ?cs" by simp
  have notdone: "pending_count (chains s) \<noteq> 0"
    using resolved_all_settled i uns by blast
  have norej: "(\<forall>x \<in> set (chains s). \<not> rejected x) \<Longrightarrow> (\<forall>x \<in> set ?cs. \<not> rejected x)"
    using set_update_subset_insert[of "chains s" i "Fulfilled v"] by auto
  have keep: "\<And>x. Rejected x \<in> set (chains s) \<Longrightarrow> Rejected x \<in> set ?cs"
    using uns by (intro member_after_update) auto
  have sem': "\<forall>j < length (roomImages u).
      complete (net j) (decorImages u) (stylePrompt u) (roomImages u ! j) (?cs ! j)
      = room_chain (net j) (decorImages u) (stylePrompt u) (roomImages u ! j)"
    using inv i sem by (simp add: batch_inv_def nth_list_update)
  show ?thesis
    using inv slots' rem' notdone norej keep sem'
    by (simp add: batch_inv_def resolve_element_def settle_combined_def Let_def
        split: option.splits sum.splits)
qed

lemma batch_inv_deliver:
  assumes inv: "batch_inv net u s"
  shows "batch_inv net u (deliver net i s)"
proof (cases "i < length (chains s) \<and> \<not> settled (chains s ! i)")
  case False
  then show ?thesis using inv by (simp add: deliver_idle)
next
  case True
  then have i: "i < length (chains s)" and uns: "\<not> settled (chains s ! i)" by simp_all
  note inputs = batch_inv_inputs[OF inv]
  have step: "complete (net i) (decorImages u) (stylePrompt u) (roomImages u ! i)
       (fst (advance (net i) (decorImages u) (stylePrompt u) i (roomImages u ! i) (chains s ! i)))
     = complete (net i) (decorImages u) (stylePrompt u) (roomImages u ! i) (chains s ! i)"
    by (rule complete_advance)
  from i uns show ?thesis
  proof (cases rule: deliver_cases[where net = net])
    case (suspend c evs)
    then show ?thesis using inv_suspend[OF inv i uns] step by (simp add: inputs)
  next
    case (fulfil v evs)
    then show ?thesis using inv_fulfil[OF inv i uns] step by (simp add: inputs)
  next
    case (reject e evs)
    then show ?thesis using inv_reject[OF inv i uns] step by (simp add: inputs)
  qed
qed

lemma batch_inv_fold:
  "batch_inv net u s \<Longrightarrow> batch_inv net u (fold (deliver net) sched s)"
  by (induction sched arbitrary: s) (simp_all add: batch_inv_deliver)

lemma batch_inv_run: "valid u \<Longrightarrow> batch_inv net u (handleGenerate net sched u)"
  unfolding handleGenerate_def by (intro batch_inv_fold batch_inv_begin)

section \<open>Runs\<close>

lemma fair_iff: "fair n sched \<longleftrightarrow> (\<forall>i < n. 6 \<le> count_list sched i)"
  by (auto simp: fair_def list_all_iff)

lemma steps_fold:
  "j < length (chains s) \<Longrightarrow>
     steps_left (chains (fold (deliver net) sched s) ! j) \<le> steps_left (chains s ! j) - count_list sched j"
proof (induction sched arbitrary: s)
  case Nil
  then show ?case by simp
next
  case (Cons i sched)
  have len: "j < length (chains (deliver net i s))" using Cons.prems by (simp add: length_chains_deliver)
  have ih: "steps_left (chains (fold (deliver net) sched (deliver net i s)) ! j)
       \<le> steps_left (chains (deliver net i s) ! j) - count_list sched j"
    using Cons.IH[OF len] .
  show ?case
  proof (cases "i = j")
    case True
    have "steps_left (chains (deliver net i s) ! j) \<le> steps_left (chains s ! j) - 1"
      using steps_deliver_same[OF Cons.prems, of net] True by simp
    then show ?thesis using ih True by simp
  next
    case False
    then show ?thesis using ih by (simp add: steps_deliver_other)
  qed
qed

lemma fair_settles:
  assumes "j < length (chains s)" "6 \<le> count_list sched j"
  shows "settled (chains (fold (deliver net) sched s) ! j)"
proof -
  have "steps_left (chains (fold (deliver net) sched s) ! j) \<le> steps_left (chains s ! j) - count_list sched j"
    using assms(1) by (rule steps_fold)
  moreover have "steps_left (chains s ! j) \<le> 6" by (rule steps_left_bound)
  ultimately have "steps_left (chains (fold (deliver net) sched s) ! j) = 0" using assms(2) by simp
  then show ?thesis by (simp add: steps_left_settled)
qed

lemma length_chains_begin: "valid u \<Longrightarrow> length (chains (handleGenerate_begin u)) = length (roomImages u)"
  by (simp add: begin_valid)

lemma run_settles:
  assumes "valid u" "j < length (roomImages u)" "6 \<le> count_list sched j"
  shows "settled (chains (handleGenerate net sched u) ! j)"
  unfolding handleGenerate_def using assms by (intro fair_settles) (simp_all add: length_chains_begin)

lemma combined_fold: "combined s = Some out \<Longrightarrow> combined (fold (deliver net) sched s) = Some out"
  by (induction sched arbitrary: s) (simp_all add: combined_deliver)

lemma idle_fold: "chains s = [] \<Longrightarrow> fold (deliver net) sched s = s"
  by (induction sched arbitrary: s) (simp_all add: deliver_idle)

lemma invalid_run:
  assumes "\<not> valid u"
  shows "handleGenerate net sched u = handleGenerate_begin u"
    and "chains (handleGenerate_begin u) = []" and "trace (handleGenerate_begin u) = []"
    and "results (ui (handleGenerate_begin u)) = results u"
    and "error (ui (handleGenerate_begin u)) =
           Some (if roomImages u = [] then ''Please upload at least one image of your room.''
                 else ''Please provide a style prompt.'')"
proof -
  show c: "chains (handleGenerate_begin u) = []"
    using assms by (auto simp: handleGenerate_begin_def valid_def)
  show "handleGenerate net sched u = handleGenerate_begin u"
    unfolding handleGenerate_def using c by (rule idle_fold)
qed (use assms in \<open>auto simp: handleGenerate_begin_def valid_def\<close>)

lemma all_fulfilled: "pending_count cs = 0 \<Longrightarrow> \<exists>vs. cs = map Fulfilled vs"
proof (induction cs)
  case Nil
  then show ?case by simp
next
  case (Cons c cs)
  then have c: "chain_value c \<noteq> None" and rest: "pending_count cs = 0"
    by (simp_all add: pending_count_def split: if_splits)
  from c obtain v where "c = Fulfilled v" by (cases c) simp_all
  moreover from Cons.IH[OF rest] obtain vs where "cs = map Fulfilled vs" by blast
  ultimately have "c # cs = map Fulfilled (v # vs)" by simp
  then show ?case by (rule exI)
qed

lemma filled_fulfilled: "filled (map chain_value (map Fulfilled vs)) = vs"
  unfolding filled_def by (induction vs) simp_all

lemma value_fulfilled: "map chain_value (map Fulfilled vs) = map Some vs"
  by simp

text \<open>
  When the combined promise is fulfilled, its array has one value per chain, in index
  order.
\<close>

lemma slots_filled_when_resolved:
  assumes inv: "batch_inv net u s" and res: "combined s = Some (Inr rs)"
  shows "chains s = map Fulfilled rs" and "slots s = map Some rs"
proof -
  from inv res have rs: "rs = filled (slots s)" and "remaining s = 0"
    and sl: "slots s = map chain_value (chains s)" and "remaining s = pending_count (chains s)"
    by (simp_all add: batch_inv_def)
  then have "pending_count (chains s) = 0" by simp
  then obtain vs where vs: "chains s = map Fulfilled vs" by (blast dest: all_fulfilled)
  have "rs = filled (map chain_value (map Fulfilled vs))" using rs sl vs by (simp only:)
  then have "rs = vs" by (simp only: filled_fulfilled)
  then show "chains s = map Fulfilled rs" using vs by simp
  then show "slots s = map Some rs" using sl by (simp only: value_fulfilled)
qed

lemma ui_resolved:
  assumes "batch_inv net u s" "combined s = Some (Inr rs)"
  shows "results (ui s) = rs" "error (ui s) = None" "isLoading (ui s) = False"
  using assms by (simp_all add: batch_inv_def continuation_def started_def)

lemma ui_rejected:
  assumes "batch_inv net u s" "combined s = Some (Inl e)"
  shows "results (ui s) = []" "error (ui s) = Some (error_message e)" "isLoading (ui s) = False"
  using assms by (simp_all add: batch_inv_def continuation_def started_def)

lemma ui_pending:
  assumes "batch_inv net u s" "combined s = None"
  shows "results (ui s) = []" "error (ui s) = None" "isLoading (ui s) = True"
  using assms by (simp_all add: batch_inv_def started_def)

lemma resolved_values:
  assumes inv: "batch_inv net u s" and res: "combined s = Some (Inr rs)"
  shows "length rs = length (roomImages u)"
    and "\<forall>i < length (roomImages u).
           room_chain (net i) (decorImages u) (stylePrompt u) (roomImages u ! i) = Inr (rs ! i)"
proof -
  have cs: "chains s = map Fulfilled rs" using inv res by (rule slots_filled_when_resolved)
  have len: "length (chains s) = length (roomImages u)" using inv by (simp add: batch_inv_def)
  show n: "length rs = length (roomImages u)" using cs len by simp
  show "\<forall>i < length (roomImages u).
           room_chain (net i) (decorImages u) (stylePrompt u) (roomImages u ! i) = Inr (rs ! i)"
  proof (intro allI impI)
    fix i assume i: "i < length (roomImages u)"
    have "complete (net i) (decorImages u) (stylePrompt u) (roomImages u ! i) (chains s ! i)
          = room_chain (net i) (decorImages u) (stylePrompt u) (roomImages u ! i)"
      using inv i by (simp add: batch_inv_def)
    moreover have "chains s ! i = Fulfilled (rs ! i)" using cs i n by simp
    ultimately show "room_chain (net i) (decorImages u) (stylePrompt u) (roomImages u ! i) = Inr (rs ! i)"
      by simp
  qed
qed

lemma settled_run_decided:
  assumes inv: "batch_inv net u s" and n: "roomImages u \<noteq> []"
    and all: "\<forall>j < length (roomImages u). settled (chains s ! j)"
  shows "combined s \<noteq> None"
proof
  assume none: "combined s = None"
  with inv have pos: "0 < pending_count (chains s)" and norej: "\<forall>c \<in> set (chains s). \<not> rejected c"
    and len: "length (chains s) = length (roomImages u)"
    by (simp_all add: batch_inv_def)
  from pos obtain c where c: "c \<in> set (chains s)" "chain_value c = None"
    using pending_count_zero[of "chains s"] by auto
  then obtain j where j: "j < length (chains s)" "chains s ! j = c" by (auto simp: in_set_conv_nth)
  then have "settled c" using all len by auto
  with c(2) have "rejected c" by (cases c) simp_all
  with norej c(1) show False by blast
qed

lemma rejected_chain_outcome:
  assumes inv: "batch_inv net u s" and rej: "Rejected e \<in> set (chains s)"
  shows "\<exists>k < length (roomImages u).
           room_chain (net k) (decorImages u) (stylePrompt u) (roomImages u ! k) = Inl e"
proof -
  have len: "length (chains s) = length (roomImages u)" using inv by (simp add: batch_inv_def)
  from rej obtain k where k: "k < length (chains s)" "chains s ! k = Rejected e"
    by (auto simp: in_set_conv_nth)
  have "complete (net k) (decorImages u) (stylePrompt u) (roomImages u ! k) (chains s ! k)
        = room_chain (net k) (decorImages u) (stylePrompt u) (roomImages u ! k)"
    using inv k(1) len by (simp add: batch_inv_def)
  then have "room_chain (net k) (decorImages u) (stylePrompt u) (roomImages u ! k) = Inl e"
    using k(2) by simp
  then show ?thesis using k(1) len by auto
qed

lemma reject_step:
  assumes inv: "batch_inv net u s"
    and before: "\<forall>c \<in> set (chains s). \<not> rejected c"
    and after: "i < length (chains s)" "chains (deliver net i s) ! i = Rejected e"
  shows "combined (deliver net i s) = Some (Inl e)"
proof -
  have uns: "\<not> settled (chains s ! i)"
  proof
    assume "settled (chains s ! i)"
    then have "deliver net i s = s" by (simp add: deliver_idle)
    with after have "Rejected e \<in> set (chains s)" by (metis nth_mem)
    with before show False by force
  qed
  have open_: "combined s = None"
  proof (cases "combined s")
    case (Some out)
    show ?thesis
    proof (cases out)
      case (Inl x)
      with Some inv have "Rejected x \<in> set (chains s)" by (simp add: batch_inv_def)
      with before show ?thesis by force
    next
      case (Inr rs)
      with Some inv have "pending_count (chains s) = 0" by (simp add: batch_inv_def)
      then have "settled (chains s ! i)" using after(1) by (rule resolved_all_settled)
      with uns show ?thesis by simp
    qed
  qed simp
  from after(1) uns show ?thesis
  proof (cases rule: deliver_cases[where net = net])
    case (suspend c evs)
    then show ?thesis using after by simp
  next
    case (fulfil v evs)
    then show ?thesis using after by (simp add: resolve_element_def settle_combined_def Let_def
          split: option.splits if_splits)
  next
    case (reject x evs)
    then show ?thesis using after open_ by (simp add: settle_combined_def)
  qed
qed

section \<open>The log of service traffic\<close>

lemma preceded_by_absent: "b \<notin> set tr \<Longrightarrow> preceded_by a b tr"
  by (induction tr) auto

lemma preceded_by_append_other:
  "preceded_by a b tr \<Longrightarrow> b \<notin> set evs \<Longrightarrow> preceded_by a b (tr @ evs)"
  by (induction tr) (auto simp: preceded_by_absent split: if_splits)

lemma preceded_by_append_after:
  "preceded_by a b tr \<Longrightarrow> a \<in> set tr \<Longrightarrow> preceded_by a b (tr @ evs)"
  by (induction tr) (auto split: if_splits)

lemma chain_trace_own:
  "chain_trace_ok i c tr \<Longrightarrow> advance ai decor prompt i f c = (c', evs)
     \<Longrightarrow> chain_trace_ok i c' (tr @ evs)"
  by (cases c)
     (auto simp: chain_trace_ok_def preceded_by_append_other preceded_by_append_after
        split: sum.splits)

lemma chain_trace_other:
  assumes "chain_trace_ok i c tr" "\<forall>ev \<in> set evs. tag ev \<noteq> i"
  shows "chain_trace_ok i c (tr @ evs)"
proof -
  have "ReqGenerate i \<notin> set evs" using assms(2) by force
  then show ?thesis using assms(1) by (auto simp: chain_trace_ok_def preceded_by_append_other)
qed

lemma trace_inv_deliver:
  assumes "trace_inv s"
  shows "trace_inv (deliver net i s)"
proof (cases "i < length (chains s) \<and> \<not> settled (chains s ! i)")
  case False
  then show ?thesis using assms by (simp add: deliver_idle)
next
  case True
  let ?adv = "advance (net i) (decorImages (ui s)) (stylePrompt (ui s)) i (roomImages (ui s) ! i) (chains s ! i)"
  have cs: "chains (deliver net i s) = (chains s)[i := fst ?adv]" using True by (simp add: chains_deliver)
  have tr: "trace (deliver net i s) = trace s @ snd ?adv" using True by (simp add: trace_deliver)
  show ?thesis
    unfolding trace_inv_def
  proof (intro allI impI)
    fix j assume "j < length (chains (deliver net i s))"
    then have j: "j < length (chains s)" by (simp add: cs)
    then have ok: "chain_trace_ok j (chains s ! j) (trace s)" using assms by (simp add: trace_inv_def)
    show "chain_trace_ok j (chains (deliver net i s) ! j) (trace (deliver net i s))"
    proof (cases "j = i")
      case True
      have "chain_trace_ok i (fst ?adv) (trace s @ snd ?adv)"
        using ok True by (intro chain_trace_own[where c = "chains s ! i"]) simp_all
      then show ?thesis using True j by (simp add: cs tr)
    next
      case False
      have "\<forall>ev \<in> set (snd ?adv). tag ev \<noteq> j" using advance_tags[of "net i"] False by force
      then have "chain_trace_ok j (chains s ! j) (trace s @ snd ?adv)"
        using ok by (intro chain_trace_other)
      then show ?thesis using False by (simp add: cs tr)
    qed
  qed
qed

lemma trace_inv_fold: "trace_inv s \<Longrightarrow> trace_inv (fold (deliver net) sched s)"
  by (induction sched arbitrary: s) (simp_all add: trace_inv_deliver)

lemma trace_inv_begin: "trace_inv (handleGenerate_begin u)"
  by (simp add: trace_inv_def handleGenerate_begin_def chain_trace_ok_def)

lemma trace_inv_run: "trace_inv (handleGenerate net sched u)"
  unfolding handleGenerate_def by (intro trace_inv_fold trace_inv_begin)

text \<open>
  All first reads complete, in input order: every enhancement request is in flight and
  no response has arrived.
\<close>

lemma first_reads:
  assumes "valid u" "k \<le> length (roomImages u)"
  shows "trace (fold (deliver net) [0..<k] (handleGenerate_begin u)) = map ReqEnhance [0..<k]
       \<and> length (chains (fold (deliver net) [0..<k] (handleGenerate_begin u))) = length (roomImages u)
       \<and> (\<forall>j. k \<le> j \<and> j < length (roomImages u)
             \<longrightarrow> chains (fold (deliver net) [0..<k] (handleGenerate_begin u)) ! j = EnhRead)"
  using assms(2)
proof (induction k)
  case 0
  then show ?case using assms(1) by (simp add: begin_valid)
next
  case (Suc k)
  let ?s = "fold (deliver net) [0..<k] (handleGenerate_begin u)"
  have ih: "trace ?s = map ReqEnhance [0..<k]" "length (chains ?s) = length (roomImages u)"
      "\<forall>j. k \<le> j \<and> j < length (roomImages u) \<longrightarrow> chains ?s ! j = EnhRead"
    using Suc by simp_all
  have k: "k < length (chains ?s)" "chains ?s ! k = EnhRead" using ih Suc.prems by simp_all
  have "fold (deliver net) [0..<Suc k] (handleGenerate_begin u) = deliver net k ?s" by simp
  then show ?case using deliver_first_read[OF k, of net] ih by simp
qed

section \<open>The properties\<close>

subsection \<open>Ordered results\<close>

text \<open>
  C1. For a state that passes validation (a non-empty list of room images and a prompt
  that is not blank after trimming) and every schedule, whenever the combined promise is
  fulfilled the result list shown by the component is its array, has one Result per room
  image, and the i-th Result is the outcome of the chain of the i-th room image; the
  order in which the operations complete plays no part. And such a run exists: when the
  chain of every room image succeeds, every fair schedule fulfils the combined promise.
\<close>

theorem results_follow_input_order:
  assumes "valid u"
  shows "(\<forall>rs. combined (handleGenerate net sched u) = Some (Inr rs) \<longrightarrow>
            results (ui (handleGenerate net sched u)) = rs \<and>
            length rs = length (roomImages u) \<and>
            (\<forall>i < length (roomImages u).
               room_chain (net i) (decorImages u) (stylePrompt u) (roomImages u ! i) = Inr (rs ! i)))
       \<and> ((\<forall>i < length (roomImages u). \<exists>r.
               room_chain (net i) (decorImages u) (stylePrompt u) (roomImages u ! i) = Inr r)
            \<and> fair (length (roomImages u)) sched
          \<longrightarrow> (\<exists>rs. combined (handleGenerate net sched u) = Some (Inr rs)))"
proof (intro conjI allI impI)
  let ?s = "handleGenerate net sched u"
  have inv: "batch_inv net u ?s" using assms by (rule batch_inv_run)
  {
    fix rs assume res: "combined ?s = Some (Inr rs)"
    show "results (ui ?s) = rs" using inv res by (rule ui_resolved)
    show "length rs = length (roomImages u)" using inv res by (rule resolved_values)
    fix i assume "i < length (roomImages u)"
    then show "room_chain (net i) (decorImages u) (stylePrompt u) (roomImages u ! i) = Inr (rs ! i)"
      using resolved_values(2)[OF inv res] by simp
  }
  assume ok: "(\<forall>i < length (roomImages u). \<exists>r.
               room_chain (net i) (decorImages u) (stylePrompt u) (roomImages u ! i) = Inr r)
            \<and> fair (length (roomImages u)) sched"
  then have all: "\<forall>j < length (roomImages u). settled (chains ?s ! j)"
    using assms by (auto simp: fair_iff intro: run_settles)
  have "combined ?s \<noteq> None"
    using inv _ all by (rule settled_run_decided) (use assms in \<open>simp add: valid_def\<close>)
  then obtain out where out: "combined ?s = Some out" by blast
  show "\<exists>rs. combined ?s = Some (Inr rs)"
  proof (cases out)
    case (Inl e)
    with inv out have "Rejected e \<in> set (chains ?s)" by (simp add: batch_inv_def)
    with inv obtain k where "k < length (roomImages u)"
        "room_chain (net k) (decorImages u) (stylePrompt u) (roomImages u ! k) = Inl e"
      using rejected_chain_outcome by blast
    with ok show ?thesis by auto
  next
    case (Inr rs)
    with out show ?thesis by simp
  qed
qed

theorem results_follow_input_order_witness:
  "valid two_rooms \<and> fair 2 interleaved \<and>
   results (ui (handleGenerate net_ok interleaved two_rooms)) =
     [\<lparr>enhancedBeforeImage = Str ''QUFB'', idea = Str ''REVTQQ''\<rparr>,
      \<lparr>enhancedBeforeImage = Str ''QkJC'', idea = Str ''REVTQg''\<rparr>] \<and>
   room_chain (net_ok 1) [] ''cozy'' roomB = Inr \<lparr>enhancedBeforeImage = Str ''QkJC'', idea = Str ''REVTQg''\<rparr> \<and>
   (\<exists>rs. combined (handleGenerate net_ok a_then_b two_rooms) = Some (Inr rs))"
proof -
  have v: "valid two_rooms" by code_simp
  have f: "fair 2 interleaved" "fair 2 a_then_b" by code_simp+
  have c: "combined (handleGenerate net_ok interleaved two_rooms) =
     Some (Inr [\<lparr>enhancedBeforeImage = Str ''QUFB'', idea = Str ''REVTQQ''\<rparr>,
                \<lparr>enhancedBeforeImage = Str ''QkJC'', idea = Str ''REVTQg''\<rparr>])"
    by code_simp
  have r0: "room_chain (net_ok 0) [] ''cozy'' roomA = Inr \<lparr>enhancedBeforeImage = Str ''QUFB'', idea = Str ''REVTQQ''\<rparr>"
    by code_simp
  have r1: "room_chain (net_ok 1) [] ''cozy'' roomB = Inr \<lparr>enhancedBeforeImage = Str ''QkJC'', idea = Str ''REVTQg''\<rparr>"
    by code_simp
  have ok: "\<forall>i < length (roomImages two_rooms). \<exists>r.
      room_chain (net_ok i) (decorImages two_rooms) (stylePrompt two_rooms) (roomImages two_rooms ! i) = Inr r"
    using r0 r1 by (simp add: two_rooms_def less_Suc_eq)
  have n: "length (roomImages two_rooms) = 2" by (simp add: two_rooms_def)
  note thm1 = results_follow_input_order[OF v, of net_ok interleaved]
  note thm2 = results_follow_input_order[OF v, of net_ok a_then_b]
  have "results (ui (handleGenerate net_ok interleaved two_rooms)) =
     [\<lparr>enhancedBeforeImage = Str ''QUFB'', idea = Str ''REVTQQ''\<rparr>,
      \<lparr>enhancedBeforeImage = Str ''QkJC'', idea = Str ''REVTQg''\<rparr>]"
    using thm1 c by blast
  moreover have "\<exists>rs. combined (handleGenerate net_ok a_then_b two_rooms) = Some (Inr rs)"
    using thm2 ok f(2) n by simp
  ultimately show ?thesis using v f r1 by simp
qed

subsection \<open>All or nothing\<close>

text \<open>
  C2. For a state that passes validation: if design generation fails for some room
  image, then under every fair schedule the run fails as a whole, the result list stays
  empty, and the error shown is that of a room image whose generation failed. It is the
  first rejection to occur: when a delivery makes a chain reject and no chain had
  rejected before, the error of that chain is the one shown, whatever completes later.
  The witness is the batch of images A and B in which the generation of B fails and
  that of A succeeds.
\<close>

theorem generation_failure_fails_batch:
  assumes "valid u"
  shows "((\<exists>j < length (roomImages u). \<exists>x.
             generateDecorIdeas (net j) (roomImages u ! j) (decorImages u) (stylePrompt u) = Inl x)
          \<and> fair (length (roomImages u)) sched
          \<longrightarrow> results (ui (handleGenerate net sched u)) = [] \<and>
              (\<exists>k < length (roomImages u). \<exists>e.
                 generateDecorIdeas (net k) (roomImages u ! k) (decorImages u) (stylePrompt u) = Inl e \<and>
                 combined (handleGenerate net sched u) = Some (Inl e) \<and>
                 error (ui (handleGenerate net sched u)) = Some (error_message e)))
       \<and> (\<forall>pre i post e.
             sched = pre @ i # post \<and>
             (\<forall>c \<in> set (chains (handleGenerate net pre u)). \<not> rejected c) \<and>
             i < length (roomImages u) \<and>
             chains (handleGenerate net (pre @ [i]) u) ! i = Rejected e
             \<longrightarrow> combined (handleGenerate net sched u) = Some (Inl e) \<and>
                 error (ui (handleGenerate net sched u)) = Some (error_message e) \<and>
                 results (ui (handleGenerate net sched u)) = [])"
proof (intro conjI allI impI)
  let ?s = "handleGenerate net sched u"
  have inv: "batch_inv net u ?s" using assms by (rule batch_inv_run)
  have len: "length (chains ?s) = length (roomImages u)" using inv by (simp add: batch_inv_def)
  {
    assume h: "(\<exists>j < length (roomImages u). \<exists>x.
             generateDecorIdeas (net j) (roomImages u ! j) (decorImages u) (stylePrompt u) = Inl x)
          \<and> fair (length (roomImages u)) sched"
    then obtain j x where j: "j < length (roomImages u)"
      and x: "generateDecorIdeas (net j) (roomImages u ! j) (decorImages u) (stylePrompt u) = Inl x"
      by blast
    have all: "\<forall>k < length (roomImages u). settled (chains ?s ! k)"
      using h assms by (auto simp: fair_iff intro: run_settles)
    have "complete (net j) (decorImages u) (stylePrompt u) (roomImages u ! j) (chains ?s ! j) = Inl x"
      using inv j x by (simp add: batch_inv_def room_chain_fails_with_generation)
    moreover have "settled (chains ?s ! j)" using all j by simp
    ultimately have cj: "chains ?s ! j = Rejected x"
      using settled_outcome[of "chains ?s ! j" "net j" "decorImages u" "stylePrompt u" "roomImages u ! j"]
      by simp
    have "combined ?s \<noteq> None"
      using inv _ all by (rule settled_run_decided) (use assms in \<open>simp add: valid_def\<close>)
    then obtain out where out: "combined ?s = Some out" by blast
    have "\<exists>e. out = Inl e"
    proof (cases out)
      case (Inr rs)
      with out have "chains ?s = map Fulfilled rs" using inv by (simp add: slots_filled_when_resolved)
      then have "chains ?s ! j = Fulfilled (rs ! j)" using j len by (metis length_map nth_map)
      with cj show ?thesis by simp
    qed simp
    then obtain e where e: "combined ?s = Some (Inl e)" using out by blast
    show "results (ui ?s) = []" using inv e by (rule ui_rejected)
    have "Rejected e \<in> set (chains ?s)" using inv e by (simp add: batch_inv_def)
    then obtain k where k: "k < length (roomImages u)"
        "room_chain (net k) (decorImages u) (stylePrompt u) (roomImages u ! k) = Inl e"
      using rejected_chain_outcome[OF inv] by blast
    then have "generateDecorIdeas (net k) (roomImages u ! k) (decorImages u) (stylePrompt u) = Inl e"
      by (simp add: room_chain_fails_with_generation)
    moreover have "error (ui ?s) = Some (error_message e)" using inv e by (rule ui_rejected)
    ultimately show "\<exists>k < length (roomImages u). \<exists>e.
                 generateDecorIdeas (net k) (roomImages u ! k) (decorImages u) (stylePrompt u) = Inl e \<and>
                 combined ?s = Some (Inl e) \<and> error (ui ?s) = Some (error_message e)"
      using k(1) e by blast
  }
  fix pre i post e
  assume h: "sched = pre @ i # post \<and>
             (\<forall>c \<in> set (chains (handleGenerate net pre u)). \<not> rejected c) \<and>
             i < length (roomImages u) \<and>
             chains (handleGenerate net (pre @ [i]) u) ! i = Rejected e"
  let ?p = "handleGenerate net pre u"
  have invp: "batch_inv net u ?p" using assms by (rule batch_inv_run)
  have lenp: "length (chains ?p) = length (roomImages u)" using invp by (simp add: batch_inv_def)
  have step: "handleGenerate net (pre @ [i]) u = deliver net i ?p"
    by (simp add: handleGenerate_def)
  have "combined (deliver net i ?p) = Some (Inl e)"
    using invp h lenp step by (intro reject_step) simp_all
  moreover have "?s = fold (deliver net) post (deliver net i ?p)"
    using h by (simp add: handleGenerate_def)
  ultimately have e: "combined ?s = Some (Inl e)" by (simp add: combined_fold)
  then show "combined ?s = Some (Inl e)" .
  show "error (ui ?s) = Some (error_message e)" using inv e by (rule ui_rejected)
  show "results (ui ?s) = []" using inv e by (rule ui_rejected)
qed

theorem generation_failure_fails_batch_witness:
  "valid two_rooms \<and> fair 2 a_then_b \<and>
   generateDecorIdeas (net_b_fails 0) roomA [] ''cozy'' = Inr (Str ''REVTQQ'') \<and>
   generateDecorIdeas (net_b_fails 1) roomB [] ''cozy'' = Inl (ErrorObj ''Failed to generate design: 503'') \<and>
   results (ui (handleGenerate net_b_fails a_then_b two_rooms)) = [] \<and>
   error (ui (handleGenerate net_b_fails a_then_b two_rooms)) = Some ''Failed to generate design: 503'' \<and>
   error (ui (handleGenerate both_fail b_then_a two_rooms)) = Some ''Failed to generate design: B is down''"
proof -
  have v: "valid two_rooms" by code_simp
  have f: "fair 2 a_then_b" by code_simp
  have gA: "generateDecorIdeas (net_b_fails 0) roomA [] ''cozy'' = Inr (Str ''REVTQQ'')" by code_simp
  have gB: "generateDecorIdeas (net_b_fails 1) roomB [] ''cozy'' = Inl (ErrorObj ''Failed to generate design: 503'')"
    by code_simp
  have n: "length (roomImages two_rooms) = 2" by (simp add: two_rooms_def)
  have failing: "\<exists>j < length (roomImages two_rooms). \<exists>x.
      generateDecorIdeas (net_b_fails j) (roomImages two_rooms ! j) (decorImages two_rooms) (stylePrompt two_rooms) = Inl x"
    using gB by (intro exI[of _ 1]) (simp add: two_rooms_def)
  note inst = generation_failure_fails_batch[OF v, of net_b_fails a_then_b]
  have empty: "results (ui (handleGenerate net_b_fails a_then_b two_rooms)) = []"
    using inst failing f n by simp
  have split: "a_then_b = [0, 0, 0, 0, 0, 0, 1, 1, 1, 1] @ 1 # [1]" by (simp add: a_then_b_def)
  have quiet: "\<forall>c \<in> set (chains (handleGenerate net_b_fails [0, 0, 0, 0, 0, 0, 1, 1, 1, 1] two_rooms)). \<not> rejected c"
    by code_simp
  have now: "chains (handleGenerate net_b_fails ([0, 0, 0, 0, 0, 0, 1, 1, 1, 1] @ [1]) two_rooms) ! 1
             = Rejected (ErrorObj ''Failed to generate design: 503'')"
    by code_simp
  have first: "error (ui (handleGenerate net_b_fails a_then_b two_rooms)) =
      Some (error_message (ErrorObj ''Failed to generate design: 503''))"
    using conjunct2[OF inst, rule_format,
        of "[0, 0, 0, 0, 0, 0, 1, 1, 1, 1]" 1 "[1]" "ErrorObj ''Failed to generate design: 503''"]
      split quiet now n by simp
  note inst' = generation_failure_fails_batch[OF v, of both_fail b_then_a]
  have split': "b_then_a = [1, 1, 1, 1] @ 1 # [0, 0, 0, 0, 0]" by (simp add: b_then_a_def)
  have quiet': "\<forall>c \<in> set (chains (handleGenerate both_fail [1, 1, 1, 1] two_rooms)). \<not> rejected c"
    by code_simp
  have now': "chains (handleGenerate both_fail ([1, 1, 1, 1] @ [1]) two_rooms) ! 1
             = Rejected (ErrorObj ''Failed to generate design: B is down'')"
    by code_simp
  have first': "error (ui (handleGenerate both_fail b_then_a two_rooms)) =
      Some (error_message (ErrorObj ''Failed to generate design: B is down''))"
    using conjunct2[OF inst', rule_format,
        of "[1, 1, 1, 1]" 1 "[0, 0, 0, 0, 0]" "ErrorObj ''Failed to generate design: B is down''"]
      split' quiet' now' n by simp
  show ?thesis using v f gA gB empty first first' by (simp add: error_message_def)
qed

subsection \<open>The design idea\<close>

text \<open>
  C3. The claim asks that every DesignIdea hold a description and an after-image, and
  that every Result pair an enhanced before-image with such a DesignIdea. For one room
  image and a service that answers the design request with an image part,
  \<open>generateDecorIdeas\<close> fulfils with the bare base64 string; the Result stores that
  string as its \<open>idea\<close>, and the two properties that the result card reads from it,
  \<open>description\<close> and \<open>image\<close>, are both \<open>undefined\<close>.
\<close>

theorem design_idea_is_bare_string:
  "generateDecorIdeas (net_ok 0) roomA [] ''minimalist'' = Inr (Str ''REVTQQ'') \<and>
   results (ui (handleGenerate net_ok [0, 0, 0, 0, 0, 0] one_room))
     = [\<lparr>enhancedBeforeImage = Str ''QUFB'', idea = Str ''REVTQQ''\<rparr>] \<and>
   map card_of (results (ui (handleGenerate net_ok [0, 0, 0, 0, 0, 0] one_room)))
     = [Inr \<lparr>description = Undefined, beforeImage = Str ''QUFB'', afterImage = Undefined\<rparr>]"
  by code_simp

subsection \<open>Enhancement falls back\<close>

text \<open>
  C4, as stated, fails: for a room image whose file can no longer be read, when the
  enhancement call throws, \<open>enhanceImage\<close> returns the empty string, not the bytes of
  the image.
\<close>

theorem unreadable_fallback_counterexample:
  "enhancement_failed (refuses (enhance_request (generative_part lostRoom))) \<and>
   payload lostRoom = ''QUFB'' \<and>
   enhanceImage refuses lostRoom = Inr (Str [])"
  by code_simp

text \<open>
  C4, amended. \<open>enhanceImage\<close> never rejects. If the enhancement call throws or its
  response carries no image data, then for a room image whose file can be read (its
  type and its base64 text hold no comma, as is the case for every image type and every
  base64 text) \<open>enhanceImage\<close> returns the base64 text of the file unchanged, and so the
  Result of that room image has exactly this text as its before-image; for a room image
  whose read fails it returns the empty payload that the read resolves with. A chain
  only ever rejects with the rejection of its design generation.
\<close>

theorem enhancement_falls_back:
  "(\<exists>v. enhanceImage ai f = Inr v)
   \<and> (readable f \<and> CHR '','' \<notin> set (ftype f) \<and> CHR '','' \<notin> set (payload f)
        \<and> enhancement_failed (ai (enhance_request (generative_part f)))
      \<longrightarrow> enhanceImage ai f = Inr (Str (payload f))
          \<and> (\<forall>r. room_chain ai decor prompt f = Inr r \<longrightarrow> enhancedBeforeImage r = Str (payload f)))
   \<and> (\<not> readable f \<and> enhancement_failed (ai (enhance_request (generative_part f)))
      \<longrightarrow> enhanceImage ai f = Inr (Str []))
   \<and> (\<forall>e. room_chain ai decor prompt f = Inl e \<longrightarrow> generateDecorIdeas ai f decor prompt = Inl e)"
proof (intro conjI impI allI)
  show "\<exists>v. enhanceImage ai f = Inr v" by (rule enhanceImage_total)
next
  assume h: "readable f \<and> CHR '','' \<notin> set (ftype f) \<and> CHR '','' \<notin> set (payload f)
        \<and> enhancement_failed (ai (enhance_request (generative_part f)))"
  then have "data (generative_part f) = Str (payload f)" by (simp add: generative_part_readable)
  then show en: "enhanceImage ai f = Inr (Str (payload f))" using h by (simp add: enhanceImage_fallback)
  fix r assume "room_chain ai decor prompt f = Inr r"
  then show "enhancedBeforeImage r = Str (payload f)"
    using en by (auto simp: room_chain_def await_def split: sum.splits)
next
  assume h: "\<not> readable f \<and> enhancement_failed (ai (enhance_request (generative_part f)))"
  then have "data (generative_part f) = Str []" by (simp add: generative_part_unreadable)
  then show "enhanceImage ai f = Inr (Str [])" using h by (simp add: enhanceImage_fallback)
next
  fix e assume "room_chain ai decor prompt f = Inl e"
  then show "generateDecorIdeas ai f decor prompt = Inl e" by (simp add: room_chain_fails_with_generation)
qed

theorem enhancement_falls_back_witness:
  "readable roomA \<and> CHR '','' \<notin> set (ftype roomA) \<and> CHR '','' \<notin> set (payload roomA) \<and>
   enhancement_failed (refuses (enhance_request (generative_part roomA))) \<and>
   enhancement_failed (text_only (enhance_request (generative_part roomA))) \<and>
   enhanceImage refuses roomA = Inr (Str ''QUFB'') \<and>
   enhanceImage text_only roomA = Inr (Str ''QUFB'') \<and>
   \<not> readable lostRoom \<and>
   enhancement_failed (text_only (enhance_request (generative_part lostRoom))) \<and>
   enhanceImage text_only lostRoom = Inr (Str []) \<and>
   generateDecorIdeas refuses roomA [] ''cozy'' = Inl (ErrorObj ''Failed to generate design: quota exceeded'')"
proof -
  have r: "readable roomA" "CHR '','' \<notin> set (ftype roomA)" "CHR '','' \<notin> set (payload roomA)"
    by code_simp+
  have e1: "enhancement_failed (refuses (enhance_request (generative_part roomA)))" by code_simp
  have e2: "enhancement_failed (text_only (enhance_request (generative_part roomA)))" by code_simp
  have l: "\<not> readable lostRoom" by code_simp
  have e3: "enhancement_failed (text_only (enhance_request (generative_part lostRoom)))" by code_simp
  have p: "payload roomA = ''QUFB''" by (simp add: roomA_def)
  have c: "room_chain refuses [] ''cozy'' roomA = Inl (ErrorObj ''Failed to generate design: quota exceeded'')"
    by code_simp
  have "enhanceImage refuses roomA = Inr (Str ''QUFB'')"
    using enhancement_falls_back[of refuses roomA "[]" "''cozy''"] r e1 p by simp
  moreover have "enhanceImage text_only roomA = Inr (Str ''QUFB'')"
    using enhancement_falls_back[of text_only roomA "[]" "''cozy''"] r e2 p by simp
  moreover have "enhanceImage text_only lostRoom = Inr (Str [])"
    using enhancement_falls_back[of text_only lostRoom "[]" "''cozy''"] l e3 by simp
  moreover have "generateDecorIdeas refuses roomA [] ''cozy'' = Inl (ErrorObj ''Failed to generate design: quota exceeded'')"
    using enhancement_falls_back[of refuses roomA "[]" "''cozy''"] c by blast
  ultimately show ?thesis using r e1 e2 l e3 by simp
qed

subsection \<open>Design generation\<close>



subsection \<open>Validation\<close>

text \<open>
  C6. With an empty list of room images, and likewise with a prompt that is empty or
  holds white space only, \<open>handleGenerate\<close> sets the validation message as the error,
  starts no chain, and under every schedule the log of service traffic stays empty: no
  enhancement request and no design request is ever sent.
\<close>

theorem validation_blocks_requests:
  "(roomImages u = [] \<longrightarrow>
      error (ui (handleGenerate net sched u)) = Some ''Please upload at least one image of your room.'' \<and>
      chains (handleGenerate net sched u) = [] \<and> trace (handleGenerate net sched u) = [])
   \<and> ((\<forall>c \<in> set (stylePrompt u). js_whitespace c) \<longrightarrow>
      error (ui (handleGenerate net sched u)) =
        Some (if roomImages u = [] then ''Please upload at least one image of your room.''
              else ''Please provide a style prompt.'') \<and>
      chains (handleGenerate net sched u) = [] \<and> trace (handleGenerate net sched u) = [])"
proof (intro conjI impI)
  assume "roomImages u = []"
  then have bad: "\<not> valid u" by (simp add: valid_def)
  show "error (ui (handleGenerate net sched u)) = Some ''Please upload at least one image of your room.''"
    using invalid_run[OF bad] \<open>roomImages u = []\<close> by simp
  show "chains (handleGenerate net sched u) = []" using invalid_run[OF bad] by simp
  show "trace (handleGenerate net sched u) = []" using invalid_run[OF bad] by simp
next
  assume "\<forall>c \<in> set (stylePrompt u). js_whitespace c"
  then have bad: "\<not> valid u" by (simp add: valid_def trim_empty_iff)
  show "error (ui (handleGenerate net sched u)) =
        Some (if roomImages u = [] then ''Please upload at least one image of your room.''
              else ''Please provide a style prompt.'')"
    using invalid_run[OF bad] by simp
  show "chains (handleGenerate net sched u) = []" using invalid_run[OF bad] by simp
  show "trace (handleGenerate net sched u) = []" using invalid_run[OF bad] by simp
qed

theorem validation_blocks_requests_witness:
  "roomImages no_rooms = [] \<and> stylePrompt blank_prompt = ''  '' \<and> roomImages blank_prompt = [roomA] \<and>
   error (ui (handleGenerate net_ok a_then_b no_rooms)) = Some ''Please upload at least one image of your room.'' \<and>
   trace (handleGenerate net_ok a_then_b no_rooms) = [] \<and>
   error (ui (handleGenerate net_ok a_then_b blank_prompt)) = Some ''Please provide a style prompt.'' \<and>
   trace (handleGenerate net_ok a_then_b blank_prompt) = []"
proof -
  have a: "roomImages no_rooms = []" by (simp add: no_rooms_def)
  have b: "\<forall>c \<in> set (stylePrompt blank_prompt). js_whitespace c" by code_simp
  have c: "roomImages blank_prompt = [roomA]" "stylePrompt blank_prompt = ''  ''"
    by (simp_all add: blank_prompt_def)
  have "error (ui (handleGenerate net_ok a_then_b no_rooms)) = Some ''Please upload at least one image of your room.''
      \<and> trace (handleGenerate net_ok a_then_b no_rooms) = []"
    using validation_blocks_requests[of no_rooms net_ok a_then_b] a by simp
  moreover have "error (ui (handleGenerate net_ok a_then_b blank_prompt)) = Some ''Please provide a style prompt.''
      \<and> trace (handleGenerate net_ok a_then_b blank_prompt) = []"
    using validation_blocks_requests[of blank_prompt net_ok a_then_b] b c(1) by simp
  ultimately show ?thesis using a c by simp
qed

subsection \<open>Order of the requests\<close>

text \<open>
  C7, as stated, fails: with one room image, when its first read has completed the
  enhancement request is in flight and no design request has been sent; in the whole
  run the design request is sent only after the enhancement response has arrived, not
  before it.
\<close>

theorem enhancement_then_generation_counterexample:
  "trace (handleGenerate net_ok [0] one_room) = [ReqEnhance 0] \<and>
   trace (handleGenerate net_ok [0, 0, 0, 0, 0, 0] one_room)
     = [ReqEnhance 0, ResEnhance 0, ReqGenerate 0, ResGenerate 0] \<and>
   \<not> preceded_by (ReqGenerate 0) (ResEnhance 0)
        (trace (handleGenerate net_ok [0, 0, 0, 0, 0, 0] one_room))"
  by code_simp

text \<open>
  C7, amended. For a state that passes validation and every schedule, the design
  request for a room image is never sent before the enhancement response for that image
  has arrived: within a chain the two operations run one after the other. Across room
  images the chains run concurrently: once the first read of every chain has completed,
  the enhancement requests of all room images are in flight together, before any
  response.
\<close>

theorem generation_waits_for_enhancement:
  assumes "valid u"
  shows "(\<forall>i < length (roomImages u).
            preceded_by (ResEnhance i) (ReqGenerate i) (trace (handleGenerate net sched u)))
       \<and> trace (handleGenerate net [0..<length (roomImages u)] u)
           = map ReqEnhance [0..<length (roomImages u)]"
proof (intro conjI allI impI)
  fix i assume "i < length (roomImages u)"
  moreover have "length (chains (handleGenerate net sched u)) = length (roomImages u)"
    using batch_inv_run[OF assms, of net sched] by (simp add: batch_inv_def)
  ultimately show "preceded_by (ResEnhance i) (ReqGenerate i) (trace (handleGenerate net sched u))"
    using trace_inv_run[of net sched u] by (simp add: trace_inv_def chain_trace_ok_def)
next
  show "trace (handleGenerate net [0..<length (roomImages u)] u) = map ReqEnhance [0..<length (roomImages u)]"
    unfolding handleGenerate_def using first_reads[OF assms, of "length (roomImages u)" net] by simp
qed

theorem generation_waits_for_enhancement_witness:
  "valid two_rooms \<and>
   preceded_by (ResEnhance 1) (ReqGenerate 1) (trace (handleGenerate net_ok interleaved two_rooms)) \<and>
   ReqGenerate 1 \<in> set (trace (handleGenerate net_ok interleaved two_rooms)) \<and>
   trace (handleGenerate net_ok [0, 1] two_rooms) = [ReqEnhance 0, ReqEnhance 1]"
proof -
  have v: "valid two_rooms" by code_simp
  have n: "length (roomImages two_rooms) = 2" by (simp add: two_rooms_def)
  have u: "[0..<2] = [0, 1::nat]" by code_simp
  have g: "ReqGenerate 1 \<in> set (trace (handleGenerate net_ok interleaved two_rooms))" by code_simp
  have "preceded_by (ResEnhance 1) (ReqGenerate 1) (trace (handleGenerate net_ok interleaved two_rooms))"
    using generation_waits_for_enhancement[OF v, of net_ok interleaved] n by simp
  moreover have "trace (handleGenerate net_ok [0, 1] two_rooms) = [ReqEnhance 0, ReqEnhance 1]"
    using generation_waits_for_enhancement[OF v, of net_ok interleaved] n u by simp
  ultimately show ?thesis using v g by simp
qed

subsection \<open>Reading a file\<close>

text \<open>
  C8, as stated, fails: for a file whose read fails, \<open>fileToGenerativePart\<close> does not
  reject; it fulfils with an empty payload.
\<close>

theorem failed_read_resolves_counterexample:
  "readAsDataURL lostRoom = None \<and>
   fileToGenerativePart lostRoom = Inr \<lparr>data = Str [], mimeType = ''image/png''\<rparr>"
  by code_simp

text \<open>
  C8, amended. \<open>fileToGenerativePart\<close> never rejects: when the read leaves no string
  in \<open>reader.result\<close>, it fulfils with the empty string as payload and the type of the
  file as mime type.
\<close>

theorem encode_never_fails:
  "(\<exists>b. fileToGenerativePart f = Inr b) \<and>
   (readAsDataURL f = None \<longrightarrow> fileToGenerativePart f = Inr \<lparr>data = Str [], mimeType = ftype f\<rparr>)"
  by (simp add: fileToGenerativePart_def generative_part_def base64EncodedData_def)

theorem encode_never_fails_witness:
  "readAsDataURL lostRoom = None \<and>
   fileToGenerativePart lostRoom = Inr \<lparr>data = Str [], mimeType = ftype lostRoom\<rparr>"
proof -
  have "readAsDataURL lostRoom = None" by code_simp
  then show ?thesis using encode_never_fails[of lostRoom] by simp
qed

subsection \<open>The comparison image\<close>





subsection \<open>Results after a failure\<close>

text \<open>
  C10, as stated, fails: a run that fails validation (here a blank prompt) sets the
  error and leaves the results of the earlier batch on display.
\<close>

theorem failed_validation_keeps_results_counterexample:
  "error (ui (handleGenerate net_ok a_then_b blank_prompt)) = Some ''Please provide a style prompt.'' \<and>
   results (ui (handleGenerate net_ok a_then_b blank_prompt)) = [old_result]"
  by code_simp

text \<open>
  C10, amended. For a state that passes validation, whenever the combined promise is
  rejected the result list is empty, whatever it held before the run, and it is already
  empty while the batch is pending: the results of an earlier batch are erased and not
  restored. A run that fails validation leaves the result list as it was and sets the
  error.
\<close>

theorem failed_batch_clears_results:
  "(valid u \<longrightarrow>
      (\<forall>e. combined (handleGenerate net sched u) = Some (Inl e)
         \<longrightarrow> results (ui (handleGenerate net sched u)) = []) \<and>
      (combined (handleGenerate net sched u) = None
         \<longrightarrow> results (ui (handleGenerate net sched u)) = []))
   \<and> (\<not> valid u \<longrightarrow>
        results (ui (handleGenerate net sched u)) = results u \<and>
        error (ui (handleGenerate net sched u)) \<noteq> None)"
proof (intro conjI impI allI)
  assume v: "valid u"
  note inv = batch_inv_run[OF v, of net sched]
  {
    fix e assume "combined (handleGenerate net sched u) = Some (Inl e)"
    with inv show "results (ui (handleGenerate net sched u)) = []" by (rule ui_rejected)
  }
  assume "combined (handleGenerate net sched u) = None"
  with inv show "results (ui (handleGenerate net sched u)) = []" by (rule ui_pending)
next
  assume bad: "\<not> valid u"
  show "results (ui (handleGenerate net sched u)) = results u"
    using invalid_run[OF bad] by simp
  show "error (ui (handleGenerate net sched u)) \<noteq> None"
    using invalid_run[OF bad] by simp
qed

theorem failed_batch_clears_results_witness:
  "valid two_rooms_shown \<and> results two_rooms_shown = [old_result] \<and>
   combined (handleGenerate net_b_fails a_then_b two_rooms_shown)
     = Some (Inl (ErrorObj ''Failed to generate design: 503'')) \<and>
   results (ui (handleGenerate net_b_fails a_then_b two_rooms_shown)) = [] \<and>
   \<not> valid blank_prompt \<and>
   results (ui (handleGenerate net_b_fails a_then_b blank_prompt)) = [old_result]"
proof -
  have v: "valid two_rooms_shown" by code_simp
  have r: "results two_rooms_shown = [old_result]" by code_simp
  have c: "combined (handleGenerate net_b_fails a_then_b two_rooms_shown)
     = Some (Inl (ErrorObj ''Failed to generate design: 503''))" by code_simp
  have b: "\<not> valid blank_prompt" by code_simp
  have rb: "results blank_prompt = [old_result]" by (simp add: blank_prompt_def)
  have "results (ui (handleGenerate net_b_fails a_then_b two_rooms_shown)) = []"
    using failed_batch_clears_results[of two_rooms_shown net_b_fails a_then_b] v c by blast
  moreover have "results (ui (handleGenerate net_b_fails a_then_b blank_prompt)) = [old_result]"
    using failed_batch_clears_results[of blank_prompt net_b_fails a_then_b] b rb by simp
  ultimately show ?thesis using v r c b by simp
qed

end
